theory Spec2Isabelle
  imports Complex_Main "HOL-Library.AList" "HOL-Library.Char_ord" "HOL-Library.List_Lexorder"
    "HOL-Library.Product_Lexorder"
begin

section \<open>Errors and Python list indexing\<close>

text \<open>
  The exceptions the embedded functions can raise. Every raise of the source is a
  branch returning \<open>Inl\<close> of one of these.
\<close>

datatype error = IndexError | KeyError | ZeroDivisionError | ValueError

text \<open>
  \<open>xs[i]\<close> for a Python list and a Python integer: a negative index counts from
  the end, anything out of range raises \<open>IndexError\<close>.
\<close>

definition py_get :: "'a list \<Rightarrow> int \<Rightarrow> error + 'a" where
  "py_get xs i =
     (if 0 \<le> i \<and> i < int (length xs) then Inr (xs ! nat i)
      else if - int (length xs) \<le> i \<and> i < 0 then Inr (xs ! nat (int (length xs) + i))
      else Inl IndexError)"

text \<open>\<open>xs[i]\<close> where \<open>i\<close> comes from \<open>range\<close> or \<open>enumerate\<close>.\<close>

definition nat_get :: "'a list \<Rightarrow> nat \<Rightarrow> error + 'a" where
  "nat_get xs i = (if i < length xs then Inr (xs ! i) else Inl IndexError)"

section \<open>Box geometry\<close>

text \<open>
  A box is the list \<open>[y_min, y_max, x_min, x_max]\<close>; \<open>bbox[0]\<close> \<dots> \<open>bbox[3]\<close>
  are the four selectors.
\<close>

datatype bbox = BBox (y_min: int) (y_max: int) (x_min: int) (x_max: int)

definition compute_area :: "bbox \<Rightarrow> int" where
  "compute_area bbox =
     max 0 (x_max bbox - x_min bbox + 1) * max 0 (y_max bbox - y_min bbox + 1)"

definition intersection_bbox :: "bbox \<Rightarrow> bbox \<Rightarrow> bbox" where
  "intersection_bbox bbox0 bbox1 =
     BBox (max (y_min bbox0) (y_min bbox1)) (min (y_max bbox0) (y_max bbox1))
          (max (x_min bbox0) (x_min bbox1)) (min (x_max bbox0) (x_max bbox1))"

definition union_area :: "bbox \<Rightarrow> bbox \<Rightarrow> int" where
  "union_area bbox0 bbox1 =
     compute_area bbox0 + compute_area bbox1
       - compute_area (intersection_bbox bbox0 bbox1)"

text \<open>
  \<open>intersection_area / union_area\<close> is Python's true division of two integers: it
  raises \<open>ZeroDivisionError\<close> on a zero divisor. The quotient is kept exact, as a
  rational (the float Python returns is its correct rounding).
\<close>

definition compute_overlap :: "bbox \<Rightarrow> bbox \<Rightarrow> error + rat" where
  "compute_overlap bbox0 bbox1 =
     (let intersection_area = compute_area (intersection_bbox bbox0 bbox1);
          union_area = compute_area bbox0 + compute_area bbox1 - intersection_area
      in if union_area = 0 then Inl ZeroDivisionError
         else Inr (of_int intersection_area / of_int union_area))"

section \<open>Image annotations\<close>

text \<open>
  The annotation dicts, one record per stage of the pipeline. Integers read from JSON
  are Python integers, hence \<open>int\<close>.
  \<^item> \<open>relationship\<close>, \<open>raw_anno\<close>: what \<open>create_relationship_json\<close> documents;
  \<^item> \<open>norm_anno\<close>: what \<open>_transform_annotations\<close> returns (no numeric class ids yet);
  \<^item> \<open>anno\<close>: after \<open>update_labels\<close>, the form \<open>create_pred_cls_json\<close> and the
    three derived-statistics functions read.
\<close>

type_synonym obj_tuple = "bbox \<times> string"

record relationship =
  subject :: string
  subject_box :: bbox
  predicate :: string
  object :: string
  object_box :: bbox

record raw_anno =
  raw_filename :: string
  raw_split_id :: int
  raw_height :: int
  raw_width :: int
  relationships :: "relationship list"

record norm_objects =
  n_names :: "string list"
  n_boxes :: "bbox list"

record norm_relations =
  nr_names :: "string list"
  nr_subj_ids :: "int list"
  nr_obj_ids :: "int list"

record norm_anno =
  n_filename :: string
  n_split_id :: int
  n_height :: int
  n_width :: int
  n_objects :: norm_objects
  n_relations :: norm_relations

record objects =
  o_ids :: "int list"
  o_names :: "string list"
  o_boxes :: "bbox list"

record relations =
  r_ids :: "int list"
  r_names :: "string list"
  r_subj_ids :: "int list"
  r_obj_ids :: "int list"

record anno =
  filename :: string
  split_id :: int
  height :: int
  width :: int
  objects :: objects
  relations :: relations

section \<open>Pair completion: \<open>create_pred_cls_json\<close>\<close>

text \<open>
  The dict \<open>pairs\<close> maps a tuple \<open>(subj_id, obj_id)\<close> to a list of
  \<open>(name, pred_id)\<close> tuples. A Python dict iterates in insertion order, and the
  flattened arrays follow that order, so the dict is an association list: a new key
  goes to the end, an existing key is updated in place.
\<close>

type_synonym pairs_dict = "((int \<times> int) \<times> (string \<times> int) list) list"

type_synonym rel_row = "int \<times> int \<times> string \<times> int"

definition init_pairs :: "nat \<Rightarrow> pairs_dict" where
  "init_pairs n = [((int s, int ob), []). s \<leftarrow> [0..<n], ob \<leftarrow> [0..<n], s \<noteq> ob]"

text \<open>
  One pass of the loop body: \<open>if key not in pairs: pairs[key] = []\<close>, then
  \<open>pairs[key].append(v)\<close>.
\<close>

definition add_rel :: "int \<times> int \<Rightarrow> string \<times> int \<Rightarrow> pairs_dict \<Rightarrow> pairs_dict" where
  "add_rel k v d =
     AList.map_entry k (\<lambda>rels. rels @ [v])
       (if k \<in> fst ` set d then d else d @ [(k, [])])"

fun fill_pairs :: "relations \<Rightarrow> nat list \<Rightarrow> pairs_dict \<Rightarrow> error + pairs_dict" where
  "fill_pairs R [] d = Inr d"
| "fill_pairs R (rel # rest) d =
     (case nat_get (r_subj_ids R) rel of Inl e \<Rightarrow> Inl e | Inr subj_id \<Rightarrow>
      case nat_get (r_obj_ids R) rel of Inl e \<Rightarrow> Inl e | Inr obj_id \<Rightarrow>
      case nat_get (r_names R) rel of Inl e \<Rightarrow> Inl e | Inr name \<Rightarrow>
      case nat_get (r_ids R) rel of Inl e \<Rightarrow> Inl e | Inr pred_id \<Rightarrow>
        fill_pairs R rest (add_rel (subj_id, obj_id) (name, pred_id) d))"

text \<open>
  \<open>rels if any(rels) else [('__background__', len(predicates) - 1)]\<close>: the elements
  of \<open>rels\<close> are 2-tuples, which are always truthy, so \<open>any(rels)\<close> says that
  \<open>rels\<close> is not empty.
\<close>

definition with_background :: "string list \<Rightarrow> pairs_dict \<Rightarrow> pairs_dict" where
  "with_background predicates d =
     map (\<lambda>(rel_tuple, rels).
            (rel_tuple,
             if rels \<noteq> [] then rels
             else [(''__background__'', int (length predicates) - 1)])) d"

definition flatten_pairs :: "pairs_dict \<Rightarrow> rel_row list" where
  "flatten_pairs d =
     concat (map (\<lambda>((subj_id, obj_id), preds).
                    map (\<lambda>(name, pred_id). (subj_id, obj_id, name, pred_id)) preds) d)"

text \<open>
  The rows go through a numpy array of strings and back through \<open>astype\<close>;
  \<open>pairs.size\<close> is 0 exactly when there is no row. \<open>astype(int)\<close> returns an
  integer that went in when it fits 64 bits and raises \<open>OverflowError\<close> otherwise,
  and a numpy string loses the NUL characters at its end. \<open>relations_of_rows\<close> is
  the round trip on integers that fit and names that do not end in NUL: the positions
  that \<open>range\<close> and \<open>enumerate\<close> produce and \<open>len(predicates) - 1\<close> always fit
  (a Python list has fewer than \<open>2\<^sup>6\<^sup>3\<close> elements), and \<open>array_safe\<close> says it of
  the integers and names an image brings in.
\<close>

definition relations_of_rows :: "rel_row list \<Rightarrow> relations" where
  "relations_of_rows rows =
     \<lparr> r_ids = map (\<lambda>(s, ob, name, pred_id). pred_id) rows,
       r_names = map (\<lambda>(s, ob, name, pred_id). name) rows,
       r_subj_ids = map (\<lambda>(s, ob, name, pred_id). s) rows,
       r_obj_ids = map (\<lambda>(s, ob, name, pred_id). ob) rows \<rparr>"

definition create_pred_cls_anno :: "string list \<Rightarrow> anno \<Rightarrow> error + anno" where
  "create_pred_cls_anno predicates a =
     (case fill_pairs (relations a) [0..<length (r_subj_ids (relations a))]
             (init_pairs (length (o_ids (objects a)))) of
        Inl e \<Rightarrow> Inl e
      | Inr d \<Rightarrow>
          let rows = flatten_pairs (with_background predicates d)
          in Inr (if rows \<noteq> [] then a\<lparr>relations := relations_of_rows rows\<rparr> else a))"

fun create_pred_cls_json :: "string list \<Rightarrow> anno list \<Rightarrow> error + anno list" where
  "create_pred_cls_json predicates [] = Inr []"
| "create_pred_cls_json predicates (a # annos) =
     (case create_pred_cls_anno predicates a of Inl e \<Rightarrow> Inl e | Inr a' \<Rightarrow>
      case create_pred_cls_json predicates annos of Inl e \<Rightarrow> Inl e
      | Inr annos' \<Rightarrow> Inr (a' # annos'))"

text \<open>The relation set read as a list of rows, and the pair a row belongs to.\<close>

definition rel_rows :: "relations \<Rightarrow> rel_row list" where
  "rel_rows R = zip (r_subj_ids R) (zip (r_obj_ids R) (zip (r_names R) (r_ids R)))"

definition pair_of :: "rel_row \<Rightarrow> int \<times> int" where
  "pair_of r = (fst r, fst (snd r))"

definition distinct_pairs :: "nat \<Rightarrow> (int \<times> int) set" where
  "distinct_pairs n = {(int s, int ob) | s ob. s < n \<and> ob < n \<and> s \<noteq> ob}"

text \<open>Vocabulary for the statements about pair completion, and three concrete images.\<close>

definition add_row :: "rel_row \<Rightarrow> pairs_dict \<Rightarrow> pairs_dict" where
  "add_row r d = add_rel (pair_of r) (snd (snd r)) d"

definition row_at :: "relations \<Rightarrow> nat \<Rightarrow> rel_row" where
  "row_at R i = (r_subj_ids R ! i, r_obj_ids R ! i, r_names R ! i, r_ids R ! i)"

definition completed_rows :: "string list \<Rightarrow> anno \<Rightarrow> rel_row list" where
  "completed_rows predicates a =
     flatten_pairs (with_background predicates
       (fold add_row (rel_rows (relations a)) (init_pairs (length (o_ids (objects a))))))"

definition in_int64 :: "int \<Rightarrow> bool" where
  "in_int64 i \<longleftrightarrow> - (2 ^ 63) \<le> i \<and> i < 2 ^ 63"

definition array_safe :: "relations \<Rightarrow> bool" where
  "array_safe R \<longleftrightarrow>
     list_all in_int64 (r_subj_ids R) \<and> list_all in_int64 (r_obj_ids R)
     \<and> list_all in_int64 (r_ids R)
     \<and> list_all (\<lambda>name. name = [] \<or> last name \<noteq> CHR 0x00) (r_names R)"

definition wf_relations :: "relations \<Rightarrow> bool" where
  "wf_relations R \<longleftrightarrow>
     length (r_subj_ids R) \<le> length (r_obj_ids R)
     \<and> length (r_subj_ids R) \<le> length (r_names R)
     \<and> length (r_subj_ids R) \<le> length (r_ids R)"

definition example_anno :: anno where
  "example_anno =
     \<lparr> filename = ''a.jpg'', split_id = 0, height = 10, width = 20,
       objects = \<lparr> o_ids = [0, 1], o_names = [''car'', ''road''],
                   o_boxes = [BBox 0 4 0 4, BBox 5 9 0 19] \<rparr>,
       relations = \<lparr> r_ids = [0], r_names = [''on''], r_subj_ids = [0], r_obj_ids = [1] \<rparr> \<rparr>"

definition self_pair_anno :: anno where
  "self_pair_anno =
     \<lparr> filename = ''b.jpg'', split_id = 0, height = 10, width = 20,
       objects = \<lparr> o_ids = [0, 1], o_names = [''car'', ''road''],
                   o_boxes = [BBox 0 4 0 4, BBox 5 9 0 19] \<rparr>,
       relations = \<lparr> r_ids = [0], r_names = [''on''], r_subj_ids = [0], r_obj_ids = [0] \<rparr> \<rparr>"

definition lone_anno :: anno where
  "lone_anno =
     \<lparr> filename = ''c.jpg'', split_id = 1, height = 10, width = 20,
       objects = \<lparr> o_ids = [0], o_names = [''car''], o_boxes = [BBox 0 4 0 4] \<rparr>,
       relations = \<lparr> r_ids = [], r_names = [], r_subj_ids = [], r_obj_ids = [] \<rparr> \<rparr>"

section \<open>Synonym engine: \<open>_densify_mat\<close>\<close>

text \<open>
  A per-class-pair adjacency matrix is a square numpy array (\<open>np.eye(len(predicates))\<close>
  with cells set to 1), here a list of rows. Its entries are floats holding small
  integers, on which numpy's arithmetic is exact, so they are integers. The four
  array operations are written for square matrices, the only shape the function is
  called with; \<open>n\<close> is the number of rows.
\<close>

type_synonym mat = "int list list"

text \<open>\<open>mat.T\<close>, \<open>np.matmul\<close>, \<open>+\<close>, \<open>np.minimum(\<cdot>, c)\<close> and \<open>np.zeros_like\<close>.\<close>

definition mat_T :: "mat \<Rightarrow> mat" where
  "mat_T m = map (\<lambda>j. map (\<lambda>i. m ! i ! j) [0..<length m]) [0..<length m]"

definition matmul :: "mat \<Rightarrow> mat \<Rightarrow> mat" where
  "matmul a b =
     map (\<lambda>i. map (\<lambda>j. \<Sum>k\<leftarrow>[0..<length b]. a ! i ! k * b ! k ! j) [0..<length b])
       [0..<length a]"

definition mat_add :: "mat \<Rightarrow> mat \<Rightarrow> mat" where
  "mat_add a b = map2 (map2 (+)) a b"

definition minimum :: "mat \<Rightarrow> int \<Rightarrow> mat" where
  "minimum m c = map (map (\<lambda>x. min x c)) m"

definition zeros_like :: "mat \<Rightarrow> mat" where
  "zeros_like m = map (map (\<lambda>x. 0)) m"

text \<open>One pass of the loop body: \<open>np.minimum(mat + np.matmul(mat.T, mat), 1)\<close>.\<close>

definition densify_step :: "mat \<Rightarrow> mat" where
  "densify_step mat = minimum (mat_add mat (matmul (mat_T mat) mat)) 1"

text \<open>
  The \<open>while (mat != old_mat).any()\<close> loop, with \<open>old_mat = np.copy(mat)\<close> at the top
  of the body; two matrices of one shape differ in some cell exactly when they differ
  as lists. Nothing in the code bounds the number of passes, so not returning is the
  value \<open>None\<close>.
\<close>

partial_function (option) densify_loop :: "mat \<Rightarrow> mat \<Rightarrow> mat option" where
  "densify_loop mat old_mat =
     (if mat \<noteq> old_mat then densify_loop (densify_step mat) mat else Some mat)"

declare densify_loop.simps [code]

definition densify_mat :: "mat \<Rightarrow> mat option" where
  "densify_mat mat = densify_loop mat (zeros_like mat)"

text \<open>A square \<open>n \<times> n\<close> matrix with entries 0 and 1, and the set of its 1-cells.\<close>

definition is_01_matrix :: "nat \<Rightarrow> mat \<Rightarrow> bool" where
  "is_01_matrix n m \<longleftrightarrow>
     length m = n \<and> list_all (\<lambda>row. length row = n \<and> list_all (\<lambda>x. x = 0 \<or> x = 1) row) m"

definition ones :: "nat \<Rightarrow> mat \<Rightarrow> (nat \<times> nat) set" where
  "ones n m = {(i, j). i < n \<and> j < n \<and> m ! i ! j = 1}"

text \<open>Two concrete matrices.\<close>

definition chain_mat :: mat where
  "chain_mat = [[1, 1, 0], [0, 1, 1], [0, 0, 1]]"

definition sparse_mat :: mat where
  "sparse_mat = [[0, 1], [0, 0]]"

section \<open>Probability estimator: \<open>compute_relationship_probabilities\<close>\<close>

text \<open>
  \<open>prob_matrix\<close> is a numpy array of shape \<open>(len(objects), len(objects), len(predicates))\<close>,
  here a list of lists of rows. Until the final division its cells are floats holding
  counts, on which \<open>+= 1\<close> is exact, so they are natural numbers; the division is
  kept exact, in the rationals.
\<close>

text \<open>
  The position an integer index selects on an axis of length \<open>n\<close> of a numpy array:
  a negative index counts from the end, anything else out of range raises
  \<open>IndexError\<close>.
\<close>

definition py_index :: "nat \<Rightarrow> int \<Rightarrow> error + nat" where
  "py_index n i =
     (if 0 \<le> i \<and> i < int n then Inr (nat i)
      else if - int n \<le> i \<and> i < 0 then Inr (nat (int n + i))
      else Inl IndexError)"

text \<open>The table, the address of a cell, and reading and writing one cell.\<close>

type_synonym 'a table = "'a list list list"

type_synonym cell = "nat \<times> nat \<times> nat"

definition ones_table :: "nat \<Rightarrow> nat \<Rightarrow> nat table" where
  "ones_table n_obj n_pred = replicate n_obj (replicate n_obj (replicate n_pred 1))"

definition get_cell :: "'a table \<Rightarrow> cell \<Rightarrow> 'a" where
  "get_cell t c = (case c of (x, y, z) \<Rightarrow> t ! x ! y ! z)"

definition set_cell :: "'a table \<Rightarrow> cell \<Rightarrow> 'a \<Rightarrow> 'a table" where
  "set_cell t c v = (case c of (x, y, z) \<Rightarrow> t[x := (t ! x)[y := (t ! x ! y)[z := v]]])"

text \<open>
  A list comprehension whose element expression can raise: the first exception ends
  it, otherwise it yields the list of results.
\<close>

fun traverse :: "('a \<Rightarrow> error + 'b) \<Rightarrow> 'a list \<Rightarrow> error + 'b list" where
  "traverse f [] = Inr []"
| "traverse f (x # xs) =
     (case f x of Inl e \<Rightarrow> Inl e | Inr y \<Rightarrow>
      case traverse f xs of Inl e \<Rightarrow> Inl e | Inr ys \<Rightarrow> Inr (y # ys))"

text \<open>
  The cell one triplet \<open>(subj_id, obj_id, pred_id)\<close> addresses:
  \<open>(ids[subj_id], ids[obj_id], pred_id)\<close>, each an index into its axis.
\<close>

definition class_cell :: "nat \<Rightarrow> nat \<Rightarrow> int list \<Rightarrow> int \<times> int \<times> int \<Rightarrow> error + cell" where
  "class_cell n_obj n_pred ids t =
     (case t of (s, ob, p) \<Rightarrow>
      case py_get ids s of Inl e \<Rightarrow> Inl e | Inr subj_class \<Rightarrow>
      case py_get ids ob of Inl e \<Rightarrow> Inl e | Inr obj_class \<Rightarrow>
      case py_index n_obj subj_class of Inl e \<Rightarrow> Inl e | Inr x \<Rightarrow>
      case py_index n_obj obj_class of Inl e \<Rightarrow> Inl e | Inr y \<Rightarrow>
      case py_index n_pred p of Inl e \<Rightarrow> Inl e | Inr z \<Rightarrow> Inr (x, y, z))"

text \<open>
  \<open>np.unique(np.stack((subj_ids, obj_ids, ids), axis=1), axis=0)\<close>: \<open>np.stack\<close> raises
  \<open>ValueError\<close> unless the three lists have one length; \<open>np.unique\<close> returns the
  distinct rows, sorted.
\<close>

definition unique_triplets :: "relations \<Rightarrow> error + (int \<times> int \<times> int) list" where
  "unique_triplets R =
     (if length (r_subj_ids R) \<noteq> length (r_obj_ids R)
         \<or> length (r_subj_ids R) \<noteq> length (r_ids R) then Inl ValueError
      else Inr (sorted_list_of_set (set (zip (r_subj_ids R) (zip (r_obj_ids R) (r_ids R))))))"

text \<open>
  \<open>prob_matrix[xs, ys, zs] += 1\<close> with index arrays reads the addressed cells, adds 1
  and writes the sums back: every addressed cell ends as its old value plus 1, however
  many times it is addressed.
\<close>

definition bump_cells :: "nat table \<Rightarrow> cell list \<Rightarrow> nat table" where
  "bump_cells t cells = fold (\<lambda>c acc. set_cell acc c (get_cell t c + 1)) cells t"

text \<open>\<open>any(names)\<close> on a list of strings: some name is not the empty string.\<close>

definition any_name :: "string list \<Rightarrow> bool" where
  "any_name names = list_ex (\<lambda>name. name \<noteq> []) names"

text \<open>
  The body of the loop for one image. When the three lists are empty (and \<open>names\<close> is
  not) the stacked array is an empty float array, and indexing \<open>ids\<close> with it raises
  \<open>IndexError\<close>.
\<close>

definition count_anno :: "nat \<Rightarrow> nat \<Rightarrow> nat table \<Rightarrow> anno \<Rightarrow> error + nat table" where
  "count_anno n_obj n_pred prob_matrix a =
     (if split_id a = 0 \<and> any_name (r_names (relations a)) then
        case unique_triplets (relations a) of Inl e \<Rightarrow> Inl e | Inr ts \<Rightarrow>
        if ts = [] then Inl IndexError else
        case traverse (class_cell n_obj n_pred (o_ids (objects a))) ts of Inl e \<Rightarrow> Inl e
        | Inr cells \<Rightarrow> Inr (bump_cells prob_matrix cells)
      else Inr prob_matrix)"

fun count_annos :: "nat \<Rightarrow> nat \<Rightarrow> nat table \<Rightarrow> anno list \<Rightarrow> error + nat table" where
  "count_annos n_obj n_pred prob_matrix [] = Inr prob_matrix"
| "count_annos n_obj n_pred prob_matrix (a # annos) =
     (case count_anno n_obj n_pred prob_matrix a of Inl e \<Rightarrow> Inl e
      | Inr t \<Rightarrow> count_annos n_obj n_pred t annos)"

text \<open>\<open>prob_matrix /= prob_matrix.sum(2)[:, :, None]\<close>.\<close>

definition normalize_rows :: "nat table \<Rightarrow> rat table" where
  "normalize_rows t =
     map (map (\<lambda>row. map (\<lambda>c. of_nat c / of_nat (sum_list row)) row)) t"

text \<open>\<open>prob_matrix\<close> after the loop, before the division.\<close>

definition count_table :: "anno list \<Rightarrow> string list \<Rightarrow> string list \<Rightarrow> error + nat table" where
  "count_table annos predicates objs =
     count_annos (length objs) (length predicates)
       (ones_table (length objs) (length predicates)) annos"

definition compute_relationship_probabilities ::
    "anno list \<Rightarrow> string list \<Rightarrow> string list \<Rightarrow> error + rat table" where
  "compute_relationship_probabilities annos predicates objs =
     (case count_table annos predicates objs of Inl e \<Rightarrow> Inl e
      | Inr prob_matrix \<Rightarrow> Inr (normalize_rows prob_matrix))"

text \<open>Two concrete training images.\<close>

definition background_only_anno :: anno where
  "background_only_anno =
     \<lparr> filename = ''d.jpg'', split_id = 0, height = 10, width = 20,
       objects = \<lparr> o_ids = [0, 1], o_names = [''car'', ''road''],
                   o_boxes = [BBox 0 4 0 4, BBox 5 9 0 19] \<rparr>,
       relations = \<lparr> r_ids = [1, 1], r_names = [''__background__'', ''__background__''],
                     r_subj_ids = [0, 1], r_obj_ids = [1, 0] \<rparr> \<rparr>"

definition repeated_anno :: anno where
  "repeated_anno =
     \<lparr> filename = ''e.jpg'', split_id = 0, height = 10, width = 20,
       objects = \<lparr> o_ids = [0, 1, 0], o_names = [''car'', ''road'', ''car''],
                   o_boxes = [BBox 0 4 0 4, BBox 5 9 0 19, BBox 0 4 10 14] \<rparr>,
       relations = \<lparr> r_ids = [0, 0, 0], r_names = [''on'', ''on'', ''on''],
                     r_subj_ids = [0, 0, 2], r_obj_ids = [1, 1, 1] \<rparr> \<rparr>"

text \<open>Vocabulary for the statements about the table.\<close>

definition table_shape :: "nat \<Rightarrow> nat \<Rightarrow> 'a table \<Rightarrow> bool" where
  "table_shape n_obj n_pred t \<longleftrightarrow>
     length t = n_obj
     \<and> list_all (\<lambda>plane. length plane = n_obj \<and> list_all (\<lambda>row. length row = n_pred) plane) t"

definition cell_in :: "nat \<Rightarrow> nat \<Rightarrow> cell \<Rightarrow> bool" where
  "cell_in n_obj n_pred c = (case c of (x, y, z) \<Rightarrow> x < n_obj \<and> y < n_obj \<and> z < n_pred)"

definition rel_triplets :: "relations \<Rightarrow> (int \<times> int \<times> int) list" where
  "rel_triplets R = zip (r_subj_ids R) (zip (r_obj_ids R) (r_ids R))"

definition observes :: "nat \<Rightarrow> nat \<Rightarrow> anno \<Rightarrow> cell \<Rightarrow> bool" where
  "observes n_obj n_pred a c =
     list_ex (\<lambda>t. class_cell n_obj n_pred (o_ids (objects a)) t = Inr c)
       (rel_triplets (relations a))"

definition counted :: "anno \<Rightarrow> bool" where
  "counted a \<longleftrightarrow> split_id a = 0 \<and> (\<exists>name \<in> set (r_names (relations a)). name \<noteq> [])"

section \<open>Normalizer and id assignment\<close>

text \<open>
  \<open>_transform_annotations\<close> builds, per image, the Python set of all
  \<open>(box, name)\<close> tuples and sorts \<open>list(set(...))\<close> by the key \<open>x_min + x_max\<close>.
  \<open>sorted\<close> is stable, so tuples with equal keys keep the order in which the set is
  iterated. That order is fixed by the hashes of the elements, and the hash of a
  string changes from one interpreter run to the next; the code does nothing to pin
  it. The iteration order is therefore a parameter \<open>it\<close> of the model: a function
  from the elements put into a set (in insertion order) to the list the set is
  iterated as. All that is known of it is \<open>set_iteration\<close>: the list has the same
  elements, each once.
\<close>

definition set_iteration :: "('a list \<Rightarrow> 'a list) \<Rightarrow> bool" where
  "set_iteration it \<longleftrightarrow> (\<forall>xs. distinct (it xs) \<and> set (it xs) = set xs)"

text \<open>The tuples put into the set: every subject, then every object.\<close>

definition mentions :: "relationship list \<Rightarrow> obj_tuple list" where
  "mentions rels =
     map (\<lambda>rel. (subject_box rel, subject rel)) rels
       @ map (\<lambda>rel. (object_box rel, object rel)) rels"

text \<open>The sort key \<open>lambda t: t[0][2] + t[0][3]\<close>.\<close>

definition box_key :: "obj_tuple \<Rightarrow> int" where
  "box_key t = x_min (fst t) + x_max (fst t)"

definition sorted_objects :: "(obj_tuple list \<Rightarrow> obj_tuple list) \<Rightarrow> relationship list \<Rightarrow> obj_tuple list" where
  "sorted_objects it rels = sort_key box_key (it (mentions rels))"

text \<open>
  \<open>{k: i for i, k in enumerate(ks)}\<close> (a later entry wins over an earlier one with
  the same key), and \<open>d[k]\<close>, which raises \<open>KeyError\<close> on a missing key.
\<close>

definition enumerate_dict :: "'k list \<Rightarrow> 'k \<rightharpoonup> int" where
  "enumerate_dict ks = map_of (rev (zip ks (map int [0..<length ks])))"

definition lookup :: "('k \<rightharpoonup> 'v) \<Rightarrow> 'k \<Rightarrow> error + 'v" where
  "lookup d k = (case d k of None \<Rightarrow> Inl KeyError | Some v \<Rightarrow> Inr v)"

text \<open>
  One image of \<open>_transform_annotations\<close>. \<open>inv_objects\<close> inverts the enumeration,
  so \<open>objs[o]\<close> for \<open>o\<close> in \<open>sorted(objs.keys())\<close> runs through the sorted list.
\<close>

definition transform_anno :: "(obj_tuple list \<Rightarrow> obj_tuple list) \<Rightarrow> raw_anno \<Rightarrow> error + norm_anno" where
  "transform_anno it anno =
     (let objs = sorted_objects it (relationships anno);
          obj_dict = enumerate_dict objs
      in case traverse (\<lambda>rel. lookup obj_dict (subject_box rel, subject rel))
                (relationships anno) of Inl e \<Rightarrow> Inl e | Inr subj_ids \<Rightarrow>
         case traverse (\<lambda>rel. lookup obj_dict (object_box rel, object rel))
                (relationships anno) of Inl e \<Rightarrow> Inl e | Inr obj_ids \<Rightarrow>
         Inr \<lparr> n_filename = raw_filename anno, n_split_id = raw_split_id anno,
               n_height = raw_height anno, n_width = raw_width anno,
               n_objects = \<lparr> n_names = map snd objs, n_boxes = map fst objs \<rparr>,
               n_relations = \<lparr> nr_names = map predicate (relationships anno),
                               nr_subj_ids = subj_ids, nr_obj_ids = obj_ids \<rparr> \<rparr>)"

definition transform_annotations ::
    "(obj_tuple list \<Rightarrow> obj_tuple list) \<Rightarrow> raw_anno list \<Rightarrow> error + norm_anno list" where
  "transform_annotations it annos = traverse (transform_anno it) annos"

text \<open>
  \<open>save_predicates_objects\<close> (the two vocabularies it returns) and \<open>update_labels\<close>,
  which run between the normalizer and pair completion.
\<close>

definition save_predicates_objects ::
    "(string list \<Rightarrow> string list) \<Rightarrow> norm_anno list \<Rightarrow> string list \<times> string list" where
  "save_predicates_objects it annos =
     (sort (it (filter (\<lambda>name. name \<noteq> ''__background__'')
                 (concat (map (\<lambda>anno. nr_names (n_relations anno)) annos))))
        @ [''__background__''],
      sort (it (concat (map (\<lambda>anno. n_names (n_objects anno)) annos))))"

definition update_labels_anno ::
    "(string \<rightharpoonup> int) \<Rightarrow> (string \<rightharpoonup> int) \<Rightarrow> norm_anno \<Rightarrow> error + anno" where
  "update_labels_anno predicates objs anno =
     (case traverse (lookup predicates) (nr_names (n_relations anno)) of Inl e \<Rightarrow> Inl e
      | Inr rel_ids \<Rightarrow>
      case traverse (lookup objs) (n_names (n_objects anno)) of Inl e \<Rightarrow> Inl e
      | Inr object_ids \<Rightarrow>
        Inr \<lparr> filename = n_filename anno, split_id = n_split_id anno,
              height = n_height anno, width = n_width anno,
              objects = \<lparr> o_ids = object_ids, o_names = n_names (n_objects anno),
                          o_boxes = n_boxes (n_objects anno) \<rparr>,
              relations = \<lparr> r_ids = rel_ids, r_names = nr_names (n_relations anno),
                            r_subj_ids = nr_subj_ids (n_relations anno),
                            r_obj_ids = nr_obj_ids (n_relations anno) \<rparr> \<rparr>)"

definition update_labels :: "norm_anno list \<Rightarrow> string list \<Rightarrow> string list \<Rightarrow> error + anno list" where
  "update_labels annos predicates objs =
     traverse (update_labels_anno (enumerate_dict predicates) (enumerate_dict objs)) annos"

text \<open>
  The pipeline prefix as \<open>transform\<close> runs it: normalizer, vocabularies, ids, pair
  completion.
\<close>

definition normalize_and_complete ::
    "(obj_tuple list \<Rightarrow> obj_tuple list) \<Rightarrow> (string list \<Rightarrow> string list) \<Rightarrow> raw_anno list
       \<Rightarrow> error + anno list" where
  "normalize_and_complete it it_names raw =
     (case transform_annotations it raw of Inl e \<Rightarrow> Inl e | Inr annos \<Rightarrow>
      case save_predicates_objects it_names annos of (predicates, objs) \<Rightarrow>
      case update_labels annos predicates objs of Inl e \<Rightarrow> Inl e | Inr labelled \<Rightarrow>
        create_pred_cls_json predicates labelled)"

text \<open>
  Two raw images: in the first, the two boxes have the same key \<open>x_min + x_max = 8\<close>;
  in the second, all keys differ.
\<close>

definition tie_raw :: raw_anno where
  "tie_raw =
     \<lparr> raw_filename = ''t.jpg'', raw_split_id = 0, raw_height = 10, raw_width = 20,
       relationships =
         [\<lparr> subject = ''person'', subject_box = BBox 0 9 2 6, predicate = ''ride'',
            object = ''horse'', object_box = BBox 0 9 0 8 \<rparr>] \<rparr>"

definition street_raw :: raw_anno where
  "street_raw =
     \<lparr> raw_filename = ''s.jpg'', raw_split_id = 0, raw_height = 10, raw_width = 20,
       relationships =
         [\<lparr> subject = ''person'', subject_box = BBox 0 9 10 14, predicate = ''near'',
            object = ''car'', object_box = BBox 0 9 0 8 \<rparr>,
          \<lparr> subject = ''car'', subject_box = BBox 0 9 0 8, predicate = ''on'',
            object = ''road'', object_box = BBox 5 9 0 19 \<rparr>] \<rparr>"

text \<open>No two distinct instances of an image share the sort key.\<close>

definition tie_free :: "raw_anno list \<Rightarrow> bool" where
  "tie_free raw \<longleftrightarrow>
     list_all (\<lambda>anno. distinct (map box_key (remdups (mentions (relationships anno))))) raw"

section \<open>Negative miner: \<open>save_negative_json\<close>\<close>

text \<open>
  \<open>r1_preds\<close> and \<open>r2_preds\<close> are the two configured lists of predicate names.
\<close>

text \<open>\<open>enumerate(xs)\<close>.\<close>

definition py_enumerate :: "'a list \<Rightarrow> (nat \<times> 'a) list" where
  "py_enumerate xs = zip [0..<length xs] xs"

text \<open>
  \<open>compute_overlap(...) < 0.9\<close> compares two floats. The left one is the quotient
  \<open>v\<close> of two integers rounded to the nearest double (ties to the even mantissa),
  the right one is the double nearest to \<open>9/10\<close>, which is
  \<open>8106479329266893 / 2\<^sup>5\<^sup>3\<close>, a little above \<open>9/10\<close>, with an odd mantissa. The
  double below it is \<open>8106479329266892 / 2\<^sup>5\<^sup>3\<close>, and rounding is monotone, so the
  rounded quotient is below the literal exactly when \<open>v\<close> is at most the midpoint of
  the two doubles (the midpoint itself rounds down, to the even mantissa). That
  midpoint is \<open>float_cut\<close>.
\<close>

definition float_cut :: rat where
  "float_cut = 16212958658533785 / 18014398509481984"

definition overlap_below :: "bbox \<Rightarrow> bbox \<Rightarrow> error + bool" where
  "overlap_below bbox0 bbox1 =
     (case compute_overlap bbox0 bbox1 of Inl e \<Rightarrow> Inl e | Inr v \<Rightarrow> Inr (v \<le> float_cut))"

text \<open>
  The two \<open>rule_applies\<close> expressions for the relation \<open>r_cnt\<close>. \<open>and\<close> evaluates
  its operands from left to right and stops at the first false one, so an operand
  that would raise is only reached when the operands before it are true.
\<close>

definition rule1_applies ::
    "anno \<Rightarrow> int \<Rightarrow> bbox \<Rightarrow> int \<Rightarrow> string \<Rightarrow> nat \<Rightarrow> string \<Rightarrow> error + bool" where
  "rule1_applies a subj_id subj_box obj_id name r_cnt rel =
     (case nat_get (r_subj_ids (relations a)) r_cnt of Inl e \<Rightarrow> Inl e | Inr this_subj_id \<Rightarrow>
      case py_get (o_boxes (objects a)) this_subj_id of Inl e \<Rightarrow> Inl e | Inr this_subj_box \<Rightarrow>
      if \<not> this_subj_id \<noteq> subj_id then Inr False else
      case overlap_below this_subj_box subj_box of Inl e \<Rightarrow> Inl e | Inr below \<Rightarrow>
      if \<not> below then Inr False else
      if \<not> rel \<noteq> name then Inr False else
      case nat_get (r_obj_ids (relations a)) r_cnt of Inl e \<Rightarrow> Inl e
      | Inr this_obj_id \<Rightarrow> Inr (this_obj_id = obj_id))"

definition rule2_applies ::
    "anno \<Rightarrow> int \<Rightarrow> int \<Rightarrow> bbox \<Rightarrow> string \<Rightarrow> nat \<Rightarrow> string \<Rightarrow> error + bool" where
  "rule2_applies a subj_id obj_id obj_box name r_cnt rel =
     (case nat_get (r_obj_ids (relations a)) r_cnt of Inl e \<Rightarrow> Inl e | Inr this_obj_id \<Rightarrow>
      case py_get (o_boxes (objects a)) this_obj_id of Inl e \<Rightarrow> Inl e | Inr this_obj_box \<Rightarrow>
      case nat_get (r_subj_ids (relations a)) r_cnt of Inl e \<Rightarrow> Inl e | Inr this_subj_id \<Rightarrow>
      if \<not> this_subj_id = subj_id then Inr False else
      if \<not> rel \<noteq> name then Inr False else
      if \<not> this_obj_id \<noteq> obj_id then Inr False else
      overlap_below this_obj_box obj_box)"

text \<open>\<open>neg_ids[r_cnt].append(relations['ids'][n_cnt])\<close>.\<close>

definition append_neg :: "int list list \<Rightarrow> nat \<Rightarrow> anno \<Rightarrow> nat \<Rightarrow> error + int list list" where
  "append_neg neg_ids r_cnt a n_cnt =
     (case nat_get neg_ids r_cnt of Inl e \<Rightarrow> Inl e | Inr negs \<Rightarrow>
      case nat_get (r_ids (relations a)) n_cnt of Inl e \<Rightarrow> Inl e
      | Inr pred_id \<Rightarrow> Inr (neg_ids[r_cnt := negs @ [pred_id]]))"

text \<open>The inner loop over \<open>enumerate(relations['names'])\<close>, for either rule.\<close>

fun rule_loop ::
    "(nat \<Rightarrow> string \<Rightarrow> error + bool) \<Rightarrow> anno \<Rightarrow> nat \<Rightarrow> (nat \<times> string) list
       \<Rightarrow> int list list \<Rightarrow> error + int list list" where
  "rule_loop rule_applies a n_cnt [] neg_ids = Inr neg_ids"
| "rule_loop rule_applies a n_cnt ((r_cnt, rel) # rest) neg_ids =
     (case rule_applies r_cnt rel of Inl e \<Rightarrow> Inl e
      | Inr applies \<Rightarrow>
          if applies then
            (case append_neg neg_ids r_cnt a n_cnt of Inl e \<Rightarrow> Inl e
             | Inr neg_ids' \<Rightarrow> rule_loop rule_applies a n_cnt rest neg_ids')
          else rule_loop rule_applies a n_cnt rest neg_ids)"

text \<open>The body of the outer loop for the relation \<open>n_cnt\<close>, and the outer loop.\<close>

definition mine_relation ::
    "string list \<Rightarrow> string list \<Rightarrow> anno \<Rightarrow> nat \<Rightarrow> string \<Rightarrow> int list list
       \<Rightarrow> error + int list list" where
  "mine_relation r1_preds r2_preds a n_cnt name neg_ids =
     (case nat_get (r_obj_ids (relations a)) n_cnt of Inl e \<Rightarrow> Inl e | Inr obj_id \<Rightarrow>
      case nat_get (r_subj_ids (relations a)) n_cnt of Inl e \<Rightarrow> Inl e | Inr subj_id \<Rightarrow>
      case py_get (o_boxes (objects a)) obj_id of Inl e \<Rightarrow> Inl e | Inr obj_box \<Rightarrow>
      case py_get (o_boxes (objects a)) subj_id of Inl e \<Rightarrow> Inl e | Inr subj_box \<Rightarrow>
      if name \<in> set r1_preds then
        rule_loop (rule1_applies a subj_id subj_box obj_id name) a n_cnt
          (py_enumerate (r_names (relations a))) neg_ids
      else if name \<in> set r2_preds then
        rule_loop (rule2_applies a subj_id obj_id obj_box name) a n_cnt
          (py_enumerate (r_names (relations a))) neg_ids
      else Inr neg_ids)"

fun mine_loop ::
    "string list \<Rightarrow> string list \<Rightarrow> anno \<Rightarrow> (nat \<times> string) list \<Rightarrow> int list list
       \<Rightarrow> error + int list list" where
  "mine_loop r1_preds r2_preds a [] neg_ids = Inr neg_ids"
| "mine_loop r1_preds r2_preds a ((n_cnt, name) # rest) neg_ids =
     (case mine_relation r1_preds r2_preds a n_cnt name neg_ids of Inl e \<Rightarrow> Inl e
      | Inr neg_ids' \<Rightarrow> mine_loop r1_preds r2_preds a rest neg_ids')"

text \<open>\<open>neg_ids\<close> of one image, and the dict \<open>negatives\<close> in insertion order.\<close>

definition mine_negatives :: "string list \<Rightarrow> string list \<Rightarrow> anno \<Rightarrow> error + int list list" where
  "mine_negatives r1_preds r2_preds a =
     mine_loop r1_preds r2_preds a (py_enumerate (r_names (relations a)))
       (replicate (length (r_ids (relations a))) [])"

definition save_negative_json ::
    "string list \<Rightarrow> string list \<Rightarrow> anno list \<Rightarrow> error + (string \<times> int list list) list" where
  "save_negative_json r1_preds r2_preds annos =
     traverse (\<lambda>a. case mine_negatives r1_preds r2_preds a of Inl e \<Rightarrow> Inl e
                    | Inr neg_ids \<Rightarrow> Inr (filename a, neg_ids)) annos"

text \<open>
  Three concrete images: a person riding a horse and a second person near it, whose
  box is disjoint from the rider's in the first image and overlaps it by exactly
  \<open>9/10\<close> in the second. In the third the boxes are so large that the overlap,
  \<open>(9 \<cdot> 10\<^sup>1\<^sup>5 - 1) / (10\<^sup>1\<^sup>6 - 1)\<close>, is below \<open>9/10\<close> and still rounds to the
  float \<open>0.9\<close>.
\<close>

definition riding_anno :: anno where
  "riding_anno =
     \<lparr> filename = ''r.jpg'', split_id = 0, height = 100, width = 100,
       objects = \<lparr> o_ids = [1, 1, 0], o_names = [''person'', ''person'', ''horse''],
                   o_boxes = [BBox 0 9 0 9, BBox 0 9 50 59, BBox 20 59 0 59] \<rparr>,
       relations = \<lparr> r_ids = [1, 0], r_names = [''riding'', ''near''],
                     r_subj_ids = [0, 1], r_obj_ids = [2, 2] \<rparr> \<rparr>"

definition close_anno :: anno where
  "close_anno =
     \<lparr> filename = ''q.jpg'', split_id = 0, height = 100, width = 100,
       objects = \<lparr> o_ids = [1, 1, 0], o_names = [''person'', ''person'', ''horse''],
                   o_boxes = [BBox 0 9 0 9, BBox 0 9 0 8, BBox 20 59 0 59] \<rparr>,
       relations = \<lparr> r_ids = [1, 0], r_names = [''riding'', ''near''],
                     r_subj_ids = [0, 1], r_obj_ids = [2, 2] \<rparr> \<rparr>"

definition huge_anno :: anno where
  "huge_anno =
     \<lparr> filename = ''h.jpg'', split_id = 0, height = 100, width = 100,
       objects = \<lparr> o_ids = [1, 1, 0], o_names = [''person'', ''person'', ''horse''],
                   o_boxes = [BBox 0 0 0 9999999999999998, BBox 0 0 0 8999999999999998,
                              BBox 20 59 0 59] \<rparr>,
       relations = \<lparr> r_ids = [1, 0], r_names = [''riding'', ''near''],
                     r_subj_ids = [0, 1], r_obj_ids = [2, 2] \<rparr> \<rparr>"

text \<open>
  Vocabulary for the statements: the condition under which relation \<open>n\<close> adds its
  predicate id to the negative list of relation \<open>r\<close>, read off a run without
  exception, and the relations that add theirs to the list of \<open>r\<close>, in order.
\<close>

definition rule1_fires :: "anno \<Rightarrow> nat \<Rightarrow> nat \<Rightarrow> bool" where
  "rule1_fires a n r =
     (case (py_get (o_boxes (objects a)) (r_subj_ids (relations a) ! r),
            py_get (o_boxes (objects a)) (r_subj_ids (relations a) ! n)) of
        (Inr this_subj_box, Inr subj_box) \<Rightarrow>
          r_subj_ids (relations a) ! r \<noteq> r_subj_ids (relations a) ! n
          \<and> overlap_below this_subj_box subj_box = Inr True
          \<and> r_names (relations a) ! r \<noteq> r_names (relations a) ! n
          \<and> r_obj_ids (relations a) ! r = r_obj_ids (relations a) ! n
      | _ \<Rightarrow> False)"

definition rule2_fires :: "anno \<Rightarrow> nat \<Rightarrow> nat \<Rightarrow> bool" where
  "rule2_fires a n r =
     (case (py_get (o_boxes (objects a)) (r_obj_ids (relations a) ! r),
            py_get (o_boxes (objects a)) (r_obj_ids (relations a) ! n)) of
        (Inr this_obj_box, Inr obj_box) \<Rightarrow>
          r_subj_ids (relations a) ! r = r_subj_ids (relations a) ! n
          \<and> r_names (relations a) ! r \<noteq> r_names (relations a) ! n
          \<and> r_obj_ids (relations a) ! r \<noteq> r_obj_ids (relations a) ! n
          \<and> overlap_below this_obj_box obj_box = Inr True
      | _ \<Rightarrow> False)"

definition fires :: "string list \<Rightarrow> string list \<Rightarrow> anno \<Rightarrow> nat \<Rightarrow> nat \<Rightarrow> bool" where
  "fires r1_preds r2_preds a n r =
     (if r_names (relations a) ! n \<in> set r1_preds then rule1_fires a n r
      else if r_names (relations a) ! n \<in> set r2_preds then rule2_fires a n r
      else False)"

definition contributors :: "string list \<Rightarrow> string list \<Rightarrow> anno \<Rightarrow> nat \<Rightarrow> nat list" where
  "contributors r1_preds r2_preds a r =
     filter (\<lambda>n. fires r1_preds r2_preds a n r) [0..<length (r_names (relations a))]"

text \<open>
  An image the miner runs through without exception: the four relation lists have
  one length, and every subject and object reference selects a box of positive area.
\<close>

definition wf_miner_input :: "anno \<Rightarrow> bool" where
  "wf_miner_input a \<longleftrightarrow>
     length (r_subj_ids (relations a)) = length (r_names (relations a))
     \<and> length (r_obj_ids (relations a)) = length (r_names (relations a))
     \<and> length (r_ids (relations a)) = length (r_names (relations a))
     \<and> list_all (\<lambda>i. case py_get (o_boxes (objects a)) i of
                         Inr b \<Rightarrow> 0 < compute_area b | Inl e \<Rightarrow> False)
          (r_subj_ids (relations a) @ r_obj_ids (relations a))"

section \<open>Facts about box geometry\<close>

lemma compute_area_nonneg: "0 \<le> compute_area b"
  by (simp add: compute_area_def)

lemma intersection_area_le_left:
  "compute_area (intersection_bbox b0 b1) \<le> compute_area b0"
  unfolding compute_area_def intersection_bbox_def bbox.sel
  by (rule mult_mono) auto

lemma intersection_area_le_right:
  "compute_area (intersection_bbox b0 b1) \<le> compute_area b1"
  unfolding compute_area_def intersection_bbox_def bbox.sel
  by (rule mult_mono) auto

lemma union_area_zero_iff:
  "union_area b0 b1 = 0 \<longleftrightarrow> compute_area b0 = 0 \<and> compute_area b1 = 0"
proof -
  have "0 \<le> compute_area b0" "0 \<le> compute_area b1"
    "0 \<le> compute_area (intersection_bbox b0 b1)"
    by (rule compute_area_nonneg)+
  moreover note intersection_area_le_left [of b0 b1] intersection_area_le_right [of b0 b1]
  ultimately show ?thesis unfolding union_area_def by linarith
qed

lemma compute_overlap_unfold:
  "compute_overlap b0 b1 =
     (if union_area b0 b1 = 0 then Inl ZeroDivisionError
      else Inr (of_int (compute_area (intersection_bbox b0 b1)) / of_int (union_area b0 b1)))"
  by (simp add: compute_overlap_def union_area_def Let_def)

text \<open>
  C2. The specification states: whenever the union area of the two boxes is 0,
  \<open>compute_overlap\<close> returns overlap 0 and raises no division error. On the code
  the division is unguarded: two boxes of area 0 (here \<open>x_max = x_min - 1\<close>) have
  union area 0 and the call raises \<open>ZeroDivisionError\<close>.
\<close>

theorem compute_overlap_zero_union_counterexample:
  "union_area (BBox 0 (-1) 0 (-1)) (BBox 3 5 7 6) = 0
   \<and> compute_overlap (BBox 0 (-1) 0 (-1)) (BBox 3 5 7 6) = Inl ZeroDivisionError
   \<and> compute_overlap (BBox 0 (-1) 0 (-1)) (BBox 3 5 7 6) \<noteq> Inr 0"
  by (simp add: compute_overlap_def union_area_def compute_area_def intersection_bbox_def)

text \<open>
  C2, as the code has it: \<open>compute_overlap\<close> raises \<open>ZeroDivisionError\<close> exactly when
  both boxes have area 0 (which is when the union area is 0); as soon as one box has
  a positive area it returns intersection area over union area, a ratio between 0
  and 1.
\<close>

theorem compute_overlap_defined_iff:
  "(compute_overlap b0 b1 = Inl ZeroDivisionError
      \<longleftrightarrow> compute_area b0 = 0 \<and> compute_area b1 = 0)
   \<and> (union_area b0 b1 = 0 \<longleftrightarrow> compute_area b0 = 0 \<and> compute_area b1 = 0)
   \<and> (0 < compute_area b0 \<or> 0 < compute_area b1 \<longrightarrow>
        (\<exists>r. compute_overlap b0 b1 = Inr r \<and> 0 \<le> r \<and> r \<le> 1
           \<and> r = of_int (compute_area (intersection_bbox b0 b1)) / of_int (union_area b0 b1)))"
proof -
  have nn: "0 \<le> compute_area b0" "0 \<le> compute_area b1"
    "0 \<le> compute_area (intersection_bbox b0 b1)"
    by (rule compute_area_nonneg)+
  note le = intersection_area_le_left [of b0 b1] intersection_area_le_right [of b0 b1]
  have z: "union_area b0 b1 = 0 \<longleftrightarrow> compute_area b0 = 0 \<and> compute_area b1 = 0"
    by (rule union_area_zero_iff)
  have a: "compute_overlap b0 b1 = Inl ZeroDivisionError
      \<longleftrightarrow> compute_area b0 = 0 \<and> compute_area b1 = 0"
    using z by (simp add: compute_overlap_unfold)
  have c: "\<exists>r. compute_overlap b0 b1 = Inr r \<and> 0 \<le> r \<and> r \<le> 1
           \<and> r = of_int (compute_area (intersection_bbox b0 b1)) / of_int (union_area b0 b1)"
    if pos: "0 < compute_area b0 \<or> 0 < compute_area b1"
  proof -
    have u: "0 < union_area b0 b1"
      using pos nn le unfolding union_area_def by linarith
    have iu: "compute_area (intersection_bbox b0 b1) \<le> union_area b0 b1"
      using nn le unfolding union_area_def by linarith
    have "(of_int (compute_area (intersection_bbox b0 b1)) :: rat) / of_int (union_area b0 b1) \<le> 1"
      using u iu by (simp add: divide_le_eq_1)
    moreover have "(0::rat) \<le> of_int (compute_area (intersection_bbox b0 b1)) / of_int (union_area b0 b1)"
      using u nn by simp
    ultimately show ?thesis using u by (simp add: compute_overlap_unfold)
  qed
  show ?thesis using a z c by blast
qed

theorem compute_overlap_defined_iff_witness:
  "compute_overlap (BBox 0 9 0 9) (BBox 0 9 5 14) = Inr (1 / 3)
   \<and> 0 < compute_area (BBox 0 9 0 9)
   \<and> compute_overlap (BBox 0 (-1) 0 (-1)) (BBox 0 (-1) 0 (-1)) = Inl ZeroDivisionError"
  using compute_overlap_defined_iff [of "BBox 0 9 0 9" "BBox 0 9 5 14"]
    compute_overlap_defined_iff [of "BBox 0 (-1) 0 (-1)" "BBox 0 (-1) 0 (-1)"]
  by (auto simp add: compute_area_def union_area_def intersection_bbox_def)

section \<open>Facts about pair completion\<close>

lemma init_pairs_alt:
  "init_pairs n = map (\<lambda>(s, ob). ((int s, int ob), []))
      (filter (\<lambda>(s, ob). s \<noteq> ob) (List.product [0..<n] [0..<n]))"
proof -
  have "\<And>xs ys. concat (map (\<lambda>s. concat (map (\<lambda>ob. if s \<noteq> ob then [((int s, int ob), [])] else []) ys)) xs)
     = map (\<lambda>(s, ob). ((int s, int ob), [])) (filter (\<lambda>(s, ob). s \<noteq> ob) (List.product xs ys))"
  proof -
    fix xs ys :: "nat list"
    have inner: "\<And>s. concat (map (\<lambda>ob. if s \<noteq> ob then [((int s, int ob), [])] else []) ys)
       = map (\<lambda>(s, ob). ((int s, int ob), [])) (filter (\<lambda>(s, ob). s \<noteq> ob) (map (Pair s) ys))"
      by (induction ys) auto
    show "concat (map (\<lambda>s. concat (map (\<lambda>ob. if s \<noteq> ob then [((int s, int ob), [])] else []) ys)) xs)
     = map (\<lambda>(s, ob). ((int s, int ob), [])) (filter (\<lambda>(s, ob). s \<noteq> ob) (List.product xs ys))"
      by (induction xs) (simp_all add: inner)
  qed
  then show ?thesis by (simp add: init_pairs_def)
qed

lemma init_pairs_keys_distinct: "distinct (map fst (init_pairs n))"
  apply (simp add: init_pairs_alt distinct_map distinct_product)
  apply (auto simp: inj_on_def)
  done

lemma init_pairs_keys_set: "set (map fst (init_pairs n)) = distinct_pairs n"
  by (auto simp add: init_pairs_alt distinct_pairs_def image_iff)

lemma init_pairs_values: "(k, v) \<in> set (init_pairs n) \<Longrightarrow> v = []"
  by (auto simp add: init_pairs_alt)

lemma length_init_pairs: "length (init_pairs n) = n * (n - 1)"
proof -
  let ?P = "List.product [0..<n] [0..<n]"
  have "length (filter (\<lambda>(s, ob). s = ob) ?P) = n"
  proof -
    have "distinct (filter (\<lambda>(s, ob). s = ob) ?P)" by (simp add: distinct_product)
    then have "length (filter (\<lambda>(s, ob). s = ob) ?P) = card (set (filter (\<lambda>(s, ob). s = ob) ?P))"
      by (rule distinct_card [symmetric])
    also have "set (filter (\<lambda>(s, ob). s = ob) ?P) = (\<lambda>s. (s, s)) ` {..<n}" by auto
    also have "card \<dots> = n" by (simp add: card_image inj_on_def)
    finally show ?thesis .
  qed
  moreover have "length (filter (\<lambda>(s, ob). s = ob) ?P) + length (filter (\<lambda>x. \<not> (\<lambda>(s, ob). s = ob) x) ?P) = length ?P"
    by (rule sum_length_filter_compl)
  moreover have "(\<lambda>x. \<not> (\<lambda>(s, ob). s = ob) x) = (\<lambda>(s, ob). s \<noteq> (ob::nat))" by auto
  ultimately have "length (filter (\<lambda>(s, ob). s \<noteq> ob) ?P) = n * n - n" by simp
  then show ?thesis by (simp add: init_pairs_alt diff_mult_distrib2)
qed

lemma map_fst_map_entry: "map fst (AList.map_entry k f d) = map fst d"
  by (induction d) auto

lemma add_rel_keys:
  "map fst (add_rel k v d) = (if k \<in> fst ` set d then map fst d else map fst d @ [k])"
  by (simp add: add_rel_def map_fst_map_entry)

lemma add_rel_keys_set: "fst ` set (add_rel k v d) = insert k (fst ` set d)"
proof -
  have "set (map fst (add_rel k v d)) = insert k (set (map fst d))"
    unfolding add_rel_keys by auto
  then show ?thesis by simp
qed

lemma add_rel_map_of:
  "map_of (add_rel k v d) k' =
     (if k' = k then Some ((case map_of d k of None \<Rightarrow> [] | Some l \<Rightarrow> l) @ [v])
      else map_of d k')"
proof (cases "k \<in> fst ` set d")
  case True
  then obtain l where "map_of d k = Some l"
    by (metis domIff dom_map_of_conv_image_fst not_Some_eq)
  then show ?thesis using True
    by (simp add: add_rel_def AList.map_of_map_entry)
next
  case False
  then have "map_of d k = None" by (simp add: map_of_eq_None_iff)
  then show ?thesis using False
    by (auto simp add: add_rel_def AList.map_of_map_entry map_add_def split: option.splits)
qed

lemma fold_add_row_keys_set:
  "fst ` set (fold add_row rows d) = fst ` set d \<union> pair_of ` set rows"
proof (induction rows arbitrary: d)
  case Nil
  show ?case by simp
next
  case (Cons r rows)
  have "fst ` set (fold add_row (r # rows) d) = fst ` set (add_row r d) \<union> pair_of ` set rows"
    by (simp add: Cons.IH)
  also have "fst ` set (add_row r d) = insert (pair_of r) (fst ` set d)"
    by (simp add: add_row_def add_rel_keys_set)
  finally show ?case by auto
qed

lemma fold_add_row_keys_distinct:
  "distinct (map fst d) \<Longrightarrow> distinct (map fst (fold add_row rows d))"
proof (induction rows arbitrary: d)
  case Nil
  then show ?case by simp
next
  case (Cons r rows)
  have "distinct (map fst (add_row r d))"
    using Cons.prems by (simp add: add_row_def add_rel_keys)
  then show ?case by (simp add: Cons.IH)
qed

lemma fold_add_row_keys_same:
  "pair_of ` set rows \<subseteq> fst ` set d \<Longrightarrow> map fst (fold add_row rows d) = map fst d"
proof (induction rows arbitrary: d)
  case Nil
  then show ?case by simp
next
  case (Cons r rows)
  have same: "map fst (add_row r d) = map fst d"
    using Cons.prems by (simp add: add_row_def add_rel_keys)
  then have "fst ` set (add_row r d) = fst ` set d"
    by (metis list.set_map)
  then have "map fst (fold add_row rows (add_row r d)) = map fst (add_row r d)"
    using Cons.prems by (intro Cons.IH) simp
  then show ?case using same by simp
qed

lemma fold_add_row_map_of:
  "map_of (fold add_row rows d) k =
     (if k \<in> fst ` set d \<union> pair_of ` set rows
      then Some ((case map_of d k of None \<Rightarrow> [] | Some l \<Rightarrow> l)
                  @ map (\<lambda>r. snd (snd r)) (filter (\<lambda>r. pair_of r = k) rows))
      else None)"
proof (induction rows arbitrary: d)
  case Nil
  show ?case
  proof (cases "map_of d k")
    case None
    then show ?thesis by (simp add: map_of_eq_None_iff)
  next
    case (Some l)
    then have "k \<in> fst ` set d" by (metis map_of_eq_None_iff option.distinct(1))
    then show ?thesis using Some by simp
  qed
next
  case (Cons r rows)
  have "map_of (fold add_row (r # rows) d) k = map_of (fold add_row rows (add_row r d)) k"
    by simp
  also have "\<dots> = (if k \<in> fst ` set (add_row r d) \<union> pair_of ` set rows
      then Some ((case map_of (add_row r d) k of None \<Rightarrow> [] | Some l \<Rightarrow> l)
                  @ map (\<lambda>r. snd (snd r)) (filter (\<lambda>r. pair_of r = k) rows))
      else None)"
    by (rule Cons.IH)
  also have "\<dots> = (if k \<in> fst ` set d \<union> pair_of ` set (r # rows)
      then Some ((case map_of d k of None \<Rightarrow> [] | Some l \<Rightarrow> l)
                  @ map (\<lambda>r. snd (snd r)) (filter (\<lambda>r. pair_of r = k) (r # rows)))
      else None)"
    by (simp add: add_row_def add_rel_keys_set add_rel_map_of)
  finally show ?case .
qed

lemma nat_get_cases:
  "nat_get xs i = (if i < length xs then Inr (xs ! i) else Inl IndexError)"
  by (simp add: nat_get_def)

lemma fill_pairs_step:
  "fill_pairs R (i # rest) d =
     (if i < length (r_subj_ids R) \<and> i < length (r_obj_ids R)
         \<and> i < length (r_names R) \<and> i < length (r_ids R)
      then fill_pairs R rest (add_row (row_at R i) d) else Inl IndexError)"
  by (simp add: nat_get_cases add_row_def row_at_def pair_of_def)

lemma fill_pairs_Inr:
  "fill_pairs R ns d = Inr d' \<Longrightarrow>
     (\<forall>i \<in> set ns. i < length (r_subj_ids R) \<and> i < length (r_obj_ids R)
         \<and> i < length (r_names R) \<and> i < length (r_ids R))
     \<and> d' = fold add_row (map (row_at R) ns) d"
proof (induction ns arbitrary: d)
  case Nil
  then show ?case by simp
next
  case (Cons i ns)
  from Cons.prems have len: "i < length (r_subj_ids R) \<and> i < length (r_obj_ids R)
         \<and> i < length (r_names R) \<and> i < length (r_ids R)"
    unfolding fill_pairs_step by (simp split: if_splits)
  with Cons.prems have "fill_pairs R ns (add_row (row_at R i) d) = Inr d'"
    unfolding fill_pairs_step by simp
  from Cons.IH [OF this] len show ?case by simp
qed

lemma rel_rows_row_at:
  assumes "length (r_subj_ids R) \<le> length (r_obj_ids R)"
    "length (r_subj_ids R) \<le> length (r_names R)"
    "length (r_subj_ids R) \<le> length (r_ids R)"
  shows "rel_rows R = map (row_at R) [0..<length (r_subj_ids R)]"
proof (rule nth_equalityI)
  show "length (rel_rows R) = length (map (row_at R) [0..<length (r_subj_ids R)])"
    using assms by (simp add: rel_rows_def)
next
  fix i assume "i < length (rel_rows R)"
  then have "i < length (r_subj_ids R)" by (simp add: rel_rows_def)
  then show "rel_rows R ! i = map (row_at R) [0..<length (r_subj_ids R)] ! i"
    using assms by (simp add: rel_rows_def row_at_def)
qed

lemma rel_rows_of_rows: "rel_rows (relations_of_rows rows) = rows"
  by (induction rows) (simp_all add: rel_rows_def relations_of_rows_def split: prod.splits)

lemma with_background_keys: "map fst (with_background p d) = map fst d"
  by (simp add: with_background_def split_def comp_def)

lemma with_background_map_of:
  "map_of (with_background p d) k =
     map_option (\<lambda>rels. if rels \<noteq> [] then rels else [(''__background__'', int (length p) - 1)])
       (map_of d k)"
  by (induction d) (simp_all add: with_background_def split: prod.splits)

lemma with_background_nonempty: "e \<in> set (with_background p d) \<Longrightarrow> snd e \<noteq> []"
  by (auto simp: with_background_def split: if_splits)

lemma flatten_pairs_Cons:
  "flatten_pairs (((s, ob), l) # d) =
     map (\<lambda>(name, pred_id). (s, ob, name, pred_id)) l @ flatten_pairs d"
  by (simp add: flatten_pairs_def)

lemma filter_group_rows:
  "filter (\<lambda>r. pair_of r = k) (map (\<lambda>(name, pred_id). (s, ob, name, pred_id)) l)
     = (if k = (s, ob) then map (\<lambda>(name, pred_id). (s, ob, name, pred_id)) l else [])"
  by (induction l) (auto simp: pair_of_def)

lemma pair_of_group_rows:
  "map pair_of (map (\<lambda>(name, pred_id). (s, ob, name, pred_id)) l) = replicate (length l) (s, ob)"
  by (induction l) (auto simp: pair_of_def)

lemma flatten_filter:
  "distinct (map fst d) \<Longrightarrow>
   filter (\<lambda>r. pair_of r = k) (flatten_pairs d) =
     (case map_of d k of None \<Rightarrow> []
      | Some l \<Rightarrow> map (\<lambda>(name, pred_id). (fst k, snd k, name, pred_id)) l)"
proof (induction d)
  case Nil
  show ?case by (simp add: flatten_pairs_def)
next
  case (Cons e d)
  obtain s ob l where e: "e = ((s, ob), l)" by (metis surj_pair)
  have IH: "filter (\<lambda>r. pair_of r = k) (flatten_pairs d) =
     (case map_of d k of None \<Rightarrow> []
      | Some l \<Rightarrow> map (\<lambda>(name, pred_id). (fst k, snd k, name, pred_id)) l)"
    using Cons by simp
  show ?case
  proof (cases "k = (s, ob)")
    case True
    with Cons.prems have "map_of d k = None" by (simp add: e map_of_eq_None_iff)
    then show ?thesis using True IH
      unfolding e flatten_pairs_Cons filter_append filter_group_rows by simp
  next
    case False
    then show ?thesis using IH
      unfolding e flatten_pairs_Cons filter_append filter_group_rows by simp
  qed
qed

lemma remdups_adj_replicate_append:
  "k' \<noteq> k \<Longrightarrow> remdups_adj (replicate (Suc m) k @ k' # rest) = k # remdups_adj (k' # rest)"
  by (induction m) auto

lemma flatten_groups:
  "distinct (map fst d) \<Longrightarrow> (\<forall>e \<in> set d. snd e \<noteq> []) \<Longrightarrow>
   remdups_adj (map pair_of (flatten_pairs d)) = map fst d"
proof (induction d)
  case Nil
  show ?case by (simp add: flatten_pairs_def)
next
  case (Cons e d)
  obtain s ob l where e: "e = ((s, ob), l)" by (metis surj_pair)
  have "l \<noteq> []" using Cons.prems by (simp add: e)
  then obtain m where m: "length l = Suc m" by (cases l) auto
  have tl: "map pair_of (flatten_pairs (e # d)) = replicate (Suc m) (s, ob) @ map pair_of (flatten_pairs d)"
    unfolding e flatten_pairs_Cons map_append pair_of_group_rows m ..
  have IH: "remdups_adj (map pair_of (flatten_pairs d)) = map fst d"
    using Cons by simp
  show ?case
  proof (cases d)
    case Nil
    have "remdups_adj (replicate (Suc m) (s, ob)) = [(s, ob)]"
      by (simp only: remdups_adj_replicate) simp
    then show ?thesis unfolding tl by (simp add: Nil flatten_pairs_def e)
  next
    case (Cons e' d')
    obtain s' ob' l' where e': "e' = ((s', ob'), l')" by (metis surj_pair)
    have "l' \<noteq> []" using Cons.prems(2) Cons e' by auto
    then obtain x xs where l': "l' = x # xs" by (cases l') auto
    have k': "(s', ob') \<noteq> (s, ob)" using Cons.prems(1) Cons e e' by auto
    obtain rest where fl: "map pair_of (flatten_pairs d) = (s', ob') # rest"
      unfolding Cons e' flatten_pairs_Cons l' by (cases x) (simp add: pair_of_def)
    have "remdups_adj (replicate (Suc m) (s, ob) @ (s', ob') # rest) = (s, ob) # remdups_adj ((s', ob') # rest)"
      using k' by (rule remdups_adj_replicate_append)
    then show ?thesis using IH unfolding tl fl by (simp add: e)
  qed
qed

lemma completed_dict_keys:
  "map fst (with_background p (fold add_row rows (init_pairs n))) = map fst (fold add_row rows (init_pairs n))"
  by (rule with_background_keys)

lemma completed_rows_groups:
  "remdups_adj (map pair_of (completed_rows p a))
     = map fst (fold add_row (rel_rows (relations a)) (init_pairs (length (o_ids (objects a)))))"
proof -
  let ?d = "fold add_row (rel_rows (relations a)) (init_pairs (length (o_ids (objects a))))"
  have "distinct (map fst (with_background p ?d))"
    unfolding with_background_keys
    by (rule fold_add_row_keys_distinct) (rule init_pairs_keys_distinct)
  moreover have "\<forall>e \<in> set (with_background p ?d). snd e \<noteq> []"
    using with_background_nonempty by blast
  ultimately have "remdups_adj (map pair_of (flatten_pairs (with_background p ?d)))
      = map fst (with_background p ?d)"
    by (rule flatten_groups)
  then show ?thesis by (simp add: completed_rows_def with_background_keys)
qed

lemma completed_rows_keys_set:
  "pair_of ` set (completed_rows p a)
     = distinct_pairs (length (o_ids (objects a))) \<union> pair_of ` set (rel_rows (relations a))"
proof -
  have "pair_of ` set (completed_rows p a) = set (remdups_adj (map pair_of (completed_rows p a)))"
    by simp
  also have "\<dots> = fst ` set (fold add_row (rel_rows (relations a)) (init_pairs (length (o_ids (objects a)))))"
    unfolding completed_rows_groups by simp
  also have "\<dots> = fst ` set (init_pairs (length (o_ids (objects a)))) \<union> pair_of ` set (rel_rows (relations a))"
    by (rule fold_add_row_keys_set)
  also have "fst ` set (init_pairs (length (o_ids (objects a)))) = distinct_pairs (length (o_ids (objects a)))"
    using init_pairs_keys_set [of "length (o_ids (objects a))"] by simp
  finally show ?thesis .
qed

lemma init_pairs_map_of:
  "map_of (init_pairs n) k = (if k \<in> distinct_pairs n then Some [] else None)"
proof (cases "map_of (init_pairs n) k")
  case None
  then have "k \<notin> fst ` set (init_pairs n)" by (simp add: map_of_eq_None_iff)
  then show ?thesis using None init_pairs_keys_set [of n] by simp
next
  case (Some l)
  then have "(k, l) \<in> set (init_pairs n)" by (rule map_of_SomeD)
  then have "l = []" "k \<in> fst ` set (init_pairs n)"
    by (auto dest: init_pairs_values simp: image_iff intro: bexI [of _ "(k, l)"])
  then show ?thesis using Some init_pairs_keys_set [of n] by simp
qed

lemma group_rows_restore:
  "map (\<lambda>(name, pred_id). (fst k, snd k, name, pred_id))
      (map (\<lambda>r. snd (snd r)) (filter (\<lambda>r. pair_of r = k) rows))
   = filter (\<lambda>r. pair_of r = k) rows"
  by (induction rows) (auto simp: pair_of_def)

lemma completed_rows_group:
  "filter (\<lambda>r. pair_of r = k) (completed_rows p a) =
     (if k \<in> pair_of ` set (rel_rows (relations a))
      then filter (\<lambda>r. pair_of r = k) (rel_rows (relations a))
      else if k \<in> distinct_pairs (length (o_ids (objects a)))
      then [(fst k, snd k, ''__background__'', int (length p) - 1)]
      else [])"
proof -
  let ?n = "length (o_ids (objects a))"
  let ?rows = "rel_rows (relations a)"
  let ?d = "fold add_row ?rows (init_pairs ?n)"
  let ?grp = "map (\<lambda>r. snd (snd r)) (filter (\<lambda>r. pair_of r = k) ?rows)"
  have dist: "distinct (map fst (with_background p ?d))"
    unfolding with_background_keys
    by (rule fold_add_row_keys_distinct) (rule init_pairs_keys_distinct)
  have keys: "fst ` set (init_pairs ?n) = distinct_pairs ?n"
    using init_pairs_keys_set [of ?n] by simp
  have mo: "map_of ?d k = (if k \<in> distinct_pairs ?n \<union> pair_of ` set ?rows then Some ?grp else None)"
    unfolding fold_add_row_map_of keys by (simp add: init_pairs_map_of)
  have grp_ne: "?grp \<noteq> [] \<longleftrightarrow> k \<in> pair_of ` set ?rows"
    by (auto simp: filter_empty_conv)
  have "filter (\<lambda>r. pair_of r = k) (completed_rows p a) =
     (case map_of (with_background p ?d) k of None \<Rightarrow> []
      | Some l \<Rightarrow> map (\<lambda>(name, pred_id). (fst k, snd k, name, pred_id)) l)"
    unfolding completed_rows_def by (rule flatten_filter [OF dist])
  also have "\<dots> = (if k \<in> pair_of ` set ?rows
      then map (\<lambda>(name, pred_id). (fst k, snd k, name, pred_id)) ?grp
      else if k \<in> distinct_pairs ?n
      then [(fst k, snd k, ''__background__'', int (length p) - 1)]
      else [])"
    unfolding with_background_map_of mo using grp_ne by auto
  finally show ?thesis unfolding group_rows_restore .
qed

lemma create_pred_cls_anno_rows:
  assumes "create_pred_cls_anno predicates a = Inr a'"
  shows "rel_rows (relations a') = completed_rows predicates a"
    and "a' = (if completed_rows predicates a \<noteq> []
               then a\<lparr>relations := relations_of_rows (completed_rows predicates a)\<rparr> else a)"
proof -
  let ?R = "relations a"
  let ?N = "length (r_subj_ids ?R)"
  let ?n = "length (o_ids (objects a))"
  from assms obtain d where d: "fill_pairs ?R [0..<?N] (init_pairs ?n) = Inr d"
    by (auto simp: create_pred_cls_anno_def split: sum.splits)
  from fill_pairs_Inr [OF d]
  have len: "\<forall>i \<in> set [0..<?N]. i < length (r_subj_ids ?R) \<and> i < length (r_obj_ids ?R)
         \<and> i < length (r_names ?R) \<and> i < length (r_ids ?R)"
    and d_eq: "d = fold add_row (map (row_at ?R) [0..<?N]) (init_pairs ?n)"
    by blast+
  have le: "?N \<le> length (r_obj_ids ?R)" "?N \<le> length (r_names ?R)" "?N \<le> length (r_ids ?R)"
    using len by (cases ?N; force)+
  have rows: "rel_rows ?R = map (row_at ?R) [0..<?N]"
    using le by (rule rel_rows_row_at)
  have fl: "flatten_pairs (with_background predicates d) = completed_rows predicates a"
    by (simp add: completed_rows_def rows d_eq)
  show a': "a' = (if completed_rows predicates a \<noteq> []
               then a\<lparr>relations := relations_of_rows (completed_rows predicates a)\<rparr> else a)"
    using assms d fl by (simp add: create_pred_cls_anno_def Let_def)
  show "rel_rows (relations a') = completed_rows predicates a"
  proof (cases "completed_rows predicates a = []")
    case False
    then show ?thesis by (simp add: a' rel_rows_of_rows)
  next
    case True
    then have "pair_of ` set (rel_rows ?R) = {}"
      using completed_rows_keys_set [of predicates a] by simp
    then show ?thesis using True by (simp add: a')
  qed
qed

lemma fill_pairs_total:
  "\<forall>i \<in> set ns. i < length (r_subj_ids R) \<and> i < length (r_obj_ids R)
         \<and> i < length (r_names R) \<and> i < length (r_ids R) \<Longrightarrow>
   fill_pairs R ns d = Inr (fold add_row (map (row_at R) ns) d)"
proof (induction ns arbitrary: d)
  case Nil
  show ?case by simp
next
  case (Cons i ns)
  then have "fill_pairs R ns (add_row (row_at R i) d)
      = Inr (fold add_row (map (row_at R) ns) (add_row (row_at R i) d))"
    by simp
  then show ?case using Cons.prems unfolding fill_pairs_step by simp
qed

lemma create_pred_cls_anno_total:
  assumes "wf_relations (relations a)"
  shows "\<exists>a'. create_pred_cls_anno predicates a = Inr a'"
proof -
  have "\<forall>i \<in> set [0..<length (r_subj_ids (relations a))].
      i < length (r_subj_ids (relations a)) \<and> i < length (r_obj_ids (relations a))
         \<and> i < length (r_names (relations a)) \<and> i < length (r_ids (relations a))"
    using assms by (auto simp: wf_relations_def)
  from fill_pairs_total [OF this] show ?thesis
    by (simp add: create_pred_cls_anno_def Let_def)
qed

lemma self_pair_run:
  "create_pred_cls_anno [''on'', ''__background__''] self_pair_anno =
     Inr (self_pair_anno \<lparr> relations :=
       \<lparr> r_ids = [1, 1, 0], r_names = [''__background__'', ''__background__'', ''on''],
         r_subj_ids = [0, 1, 0], r_obj_ids = [1, 0, 0] \<rparr> \<rparr>)"
  by (simp add: create_pred_cls_anno_def self_pair_anno_def init_pairs_def nat_get_def
      add_rel_def with_background_def flatten_pairs_def relations_of_rows_def upt_rec [of 0] Let_def)

text \<open>
  C1. The specification states: after pair completion of an image with \<open>n\<close> instances the
  relation set has one entry group per ordered pair of distinct instance indices,
  \<open>n * (n - 1)\<close> groups, self-pairs excluded. On the code an annotated relation whose
  subject and object are the same instance keeps its own group (the loop adds every
  key it does not find): with two objects and the one relation \<open>(0, ''on'', 0)\<close> the
  result has three groups, one of them for the self-pair \<open>(0, 0)\<close>.
\<close>

theorem create_pred_cls_self_pair_counterexample:
  "(\<exists>a'. create_pred_cls_anno [''on'', ''__background__''] self_pair_anno = Inr a'
      \<and> length (o_ids (objects self_pair_anno)) = 2
      \<and> (0, 0) \<in> pair_of ` set (rel_rows (relations a'))
      \<and> length (remdups_adj (map pair_of (rel_rows (relations a')))) = 3
      \<and> length (remdups_adj (map pair_of (rel_rows (relations a')))) \<noteq> 2 * (2 - 1))"
  unfolding self_pair_run
  by (simp add: self_pair_anno_def rel_rows_def pair_of_def)

text \<open>
  C1, as the code has it. For an image with \<open>n\<close> instances whose relation arrays are
  at least as long as \<open>subj_ids\<close>, whose relation indices and predicate ids fit 64-bit
  signed integers and whose predicate names do not end in NUL (so that the array
  conversion gives every row back), pair completion returns, and in the relation set
  it returns:
  \<^item> the pairs that occur are the ordered pairs of distinct indices below \<open>n\<close>
    together with every annotated pair (self-pairs and out-of-range pairs included);
  \<^item> the rows of one pair are contiguous: each pair is one group;
  \<^item> a pair of distinct indices below \<open>n\<close> with no annotated predicate holds exactly
    one row, named \<open>__background__\<close> with id \<open>len(predicates) - 1\<close>;
  \<^item> an annotated pair holds exactly its annotated rows, in their order;
  \<^item> when every annotated pair is a pair of distinct indices below \<open>n\<close>, the groups
    are the pairs \<open>(s, o)\<close>, \<open>s \<noteq> o\<close>, in lexicographic order, \<open>n * (n - 1)\<close> of them.
\<close>

theorem create_pred_cls_anno_groups:
  assumes "wf_relations (relations a)" and "array_safe (relations a)"
  shows "\<exists>a'. create_pred_cls_anno predicates a = Inr a'
    \<and> pair_of ` set (rel_rows (relations a'))
         = distinct_pairs (length (o_ids (objects a))) \<union> pair_of ` set (rel_rows (relations a))
    \<and> distinct (remdups_adj (map pair_of (rel_rows (relations a'))))
    \<and> (\<forall>k. k \<in> distinct_pairs (length (o_ids (objects a)))
            \<and> k \<notin> pair_of ` set (rel_rows (relations a)) \<longrightarrow>
          filter (\<lambda>r. pair_of r = k) (rel_rows (relations a'))
            = [(fst k, snd k, ''__background__'', int (length predicates) - 1)])
    \<and> (\<forall>k. k \<in> pair_of ` set (rel_rows (relations a)) \<longrightarrow>
          filter (\<lambda>r. pair_of r = k) (rel_rows (relations a'))
            = filter (\<lambda>r. pair_of r = k) (rel_rows (relations a)))
    \<and> (pair_of ` set (rel_rows (relations a)) \<subseteq> distinct_pairs (length (o_ids (objects a))) \<longrightarrow>
          remdups_adj (map pair_of (rel_rows (relations a')))
            = [(int s, int ob). s \<leftarrow> [0..<length (o_ids (objects a))],
                 ob \<leftarrow> [0..<length (o_ids (objects a))], s \<noteq> ob]
          \<and> length (remdups_adj (map pair_of (rel_rows (relations a'))))
            = length (o_ids (objects a)) * (length (o_ids (objects a)) - 1))"
proof -
  let ?n = "length (o_ids (objects a))"
  let ?rows = "rel_rows (relations a)"
  from create_pred_cls_anno_total [OF assms(1)]
  obtain a' where a': "create_pred_cls_anno predicates a = Inr a'" by blast
  have rows': "rel_rows (relations a') = completed_rows predicates a"
    using a' by (rule create_pred_cls_anno_rows)
  have keys: "fst ` set (init_pairs ?n) = distinct_pairs ?n"
    using init_pairs_keys_set [of ?n] by simp
  have p1: "pair_of ` set (rel_rows (relations a')) = distinct_pairs ?n \<union> pair_of ` set ?rows"
    unfolding rows' by (rule completed_rows_keys_set)
  have p2: "distinct (remdups_adj (map pair_of (rel_rows (relations a'))))"
    unfolding rows' completed_rows_groups
    by (rule fold_add_row_keys_distinct) (rule init_pairs_keys_distinct)
  have p3: "\<forall>k. k \<in> distinct_pairs ?n \<and> k \<notin> pair_of ` set ?rows \<longrightarrow>
          filter (\<lambda>r. pair_of r = k) (rel_rows (relations a'))
            = [(fst k, snd k, ''__background__'', int (length predicates) - 1)]"
    unfolding rows' completed_rows_group by simp
  have p4: "\<forall>k. k \<in> pair_of ` set ?rows \<longrightarrow>
          filter (\<lambda>r. pair_of r = k) (rel_rows (relations a'))
            = filter (\<lambda>r. pair_of r = k) ?rows"
    unfolding rows' completed_rows_group by simp
  have p5: "remdups_adj (map pair_of (rel_rows (relations a')))
            = [(int s, int ob). s \<leftarrow> [0..<?n], ob \<leftarrow> [0..<?n], s \<noteq> ob]
          \<and> length (remdups_adj (map pair_of (rel_rows (relations a')))) = ?n * (?n - 1)"
    if sub: "pair_of ` set ?rows \<subseteq> distinct_pairs ?n"
  proof -
    have same: "remdups_adj (map pair_of (rel_rows (relations a'))) = map fst (init_pairs ?n)"
      unfolding rows' completed_rows_groups
      by (rule fold_add_row_keys_same) (simp add: keys sub)
    have "map fst (init_pairs ?n) = [(int s, int ob). s \<leftarrow> [0..<?n], ob \<leftarrow> [0..<?n], s \<noteq> ob]"
      by (simp add: init_pairs_def map_concat comp_def if_distrib [of "map fst"] cong: if_cong)
    moreover have "length (map fst (init_pairs ?n)) = ?n * (?n - 1)"
      by (simp add: length_init_pairs)
    ultimately show ?thesis unfolding same by simp
  qed
  show ?thesis using a' p1 p2 p3 p4 p5 by blast
qed

text \<open>
  C10. An image with fewer than two objects and no relation (\<open>subj_ids\<close> empty) comes
  out of pair completion exactly as it went in: the array of rows is empty, so
  \<open>relations\<close> is not rewritten and no background relation is inserted.
\<close>

theorem create_pred_cls_anno_unchanged:
  assumes "length (o_ids (objects a)) < 2" and "r_subj_ids (relations a) = []"
  shows "create_pred_cls_anno predicates a = Inr a"
proof -
  have "length (init_pairs (length (o_ids (objects a)))) = 0"
    using assms(1) unfolding length_init_pairs by (cases "length (o_ids (objects a))") auto
  then have "init_pairs (length (o_ids (objects a))) = []" by simp
  then show ?thesis using assms(2)
    by (simp add: create_pred_cls_anno_def with_background_def flatten_pairs_def)
qed

lemma distinct_pairs_2: "distinct_pairs 2 = {(0, 1), (1, 0)}"
proof -
  have "[0..<2] = [0, Suc 0]" by (simp add: upt_rec [of 0] upt_rec [of "Suc 0"])
  then have "set (map fst (init_pairs 2)) = {(0, 1), (1, 0)}"
    by (simp add: init_pairs_def)
  then show ?thesis unfolding init_pairs_keys_set .
qed

text \<open>
  The statement of C1 at a concrete image: two objects and the relation
  \<open>(0, ''on'', 1)\<close>; the pair \<open>(1, 0)\<close> gets the background row.
\<close>

theorem create_pred_cls_anno_groups_witness:
  "wf_relations (relations example_anno)
   \<and> array_safe (relations example_anno)
   \<and> pair_of ` set (rel_rows (relations example_anno)) \<subseteq> distinct_pairs 2
   \<and> (\<exists>a'. create_pred_cls_anno [''on'', ''__background__''] example_anno = Inr a'
        \<and> remdups_adj (map pair_of (rel_rows (relations a'))) = [(0, 1), (1, 0)]
        \<and> filter (\<lambda>r. pair_of r = (0, 1)) (rel_rows (relations a')) = [(0, 1, ''on'', 0)]
        \<and> filter (\<lambda>r. pair_of r = (1, 0)) (rel_rows (relations a'))
             = [(1, 0, ''__background__'', 1)])"
proof -
  have wf: "wf_relations (relations example_anno)"
    by (simp add: wf_relations_def example_anno_def)
  have safe: "array_safe (relations example_anno)"
    by (simp add: array_safe_def in_int64_def example_anno_def)
  have n: "length (o_ids (objects example_anno)) = 2"
    by (simp add: example_anno_def)
  have rows: "rel_rows (relations example_anno) = [(0, 1, ''on'', 0)]"
    by (simp add: example_anno_def rel_rows_def)
  have sub: "pair_of ` set (rel_rows (relations example_anno)) \<subseteq> distinct_pairs 2"
    by (simp add: rows distinct_pairs_2 pair_of_def)
  have up: "[0..<2] = [0, Suc 0]" by (simp add: upt_rec [of 0] upt_rec [of "Suc 0"])
  from create_pred_cls_anno_groups [OF wf safe, of "[''on'', ''__background__'']"]
  obtain a' where a': "create_pred_cls_anno [''on'', ''__background__''] example_anno = Inr a'"
    and bg: "\<forall>k. k \<in> distinct_pairs 2 \<and> k \<notin> pair_of ` set (rel_rows (relations example_anno)) \<longrightarrow>
          filter (\<lambda>r. pair_of r = k) (rel_rows (relations a'))
            = [(fst k, snd k, ''__background__'', int (length [''on'', ''__background__'']) - 1)]"
    and keep: "\<forall>k. k \<in> pair_of ` set (rel_rows (relations example_anno)) \<longrightarrow>
          filter (\<lambda>r. pair_of r = k) (rel_rows (relations a'))
            = filter (\<lambda>r. pair_of r = k) (rel_rows (relations example_anno))"
    and grp: "pair_of ` set (rel_rows (relations example_anno)) \<subseteq> distinct_pairs 2 \<longrightarrow>
          remdups_adj (map pair_of (rel_rows (relations a')))
            = [(int s, int ob). s \<leftarrow> [0..<2], ob \<leftarrow> [0..<2], s \<noteq> ob]
          \<and> length (remdups_adj (map pair_of (rel_rows (relations a')))) = 2 * (2 - 1)"
    unfolding n by blast
  have g: "remdups_adj (map pair_of (rel_rows (relations a'))) = [(0, 1), (1, 0)]"
    using grp sub by (simp add: up)
  have k1: "filter (\<lambda>r. pair_of r = (0, 1)) (rel_rows (relations a')) = [(0, 1, ''on'', 0)]"
    using keep [rule_format, of "(0, 1)"] by (simp add: rows pair_of_def)
  have k2: "filter (\<lambda>r. pair_of r = (1, 0)) (rel_rows (relations a')) = [(1, 0, ''__background__'', 1)]"
    using bg [rule_format, of "(1, 0)"] by (simp add: rows pair_of_def distinct_pairs_2)
  show ?thesis using wf safe sub a' g k1 k2 by blast
qed

text \<open>The statement of C10 at an image with one object and no relation.\<close>

theorem create_pred_cls_anno_unchanged_witness:
  "length (o_ids (objects lone_anno)) < 2 \<and> r_subj_ids (relations lone_anno) = []
   \<and> create_pred_cls_anno [''on'', ''__background__''] lone_anno = Inr lone_anno"
proof -
  have h1: "length (o_ids (objects lone_anno)) < 2" by (simp add: lone_anno_def)
  have h2: "r_subj_ids (relations lone_anno) = []" by (simp add: lone_anno_def)
  from create_pred_cls_anno_unchanged [OF h1 h2] h1 h2 show ?thesis by simp
qed

section \<open>Facts about the closure loop\<close>

lemma is_01_matrix_nth:
  "is_01_matrix n m \<Longrightarrow> i < n \<Longrightarrow> length (m ! i) = n"
  "is_01_matrix n m \<Longrightarrow> i < n \<Longrightarrow> j < n \<Longrightarrow> m ! i ! j = 0 \<or> m ! i ! j = 1"
  by (auto simp: is_01_matrix_def list_all_length)

lemma is_01_matrixI:
  "length m = n \<Longrightarrow> (\<And>i. i < n \<Longrightarrow> length (m ! i) = n) \<Longrightarrow>
   (\<And>i j. i < n \<Longrightarrow> j < n \<Longrightarrow> m ! i ! j = 0 \<or> m ! i ! j = 1) \<Longrightarrow> is_01_matrix n m"
  by (auto simp: is_01_matrix_def list_all_length)

lemma mat_eqI:
  assumes "length a = n" "length b = n"
    "\<And>i. i < n \<Longrightarrow> length (a ! i) = n" "\<And>i. i < n \<Longrightarrow> length (b ! i) = n"
    "\<And>i j. i < n \<Longrightarrow> j < n \<Longrightarrow> a ! i ! j = b ! i ! j"
  shows "a = b"
proof (rule nth_equalityI)
  show "length a = length b" using assms by simp
next
  fix i assume "i < length a"
  then have i: "i < n" using assms by simp
  show "a ! i = b ! i"
    by (rule nth_equalityI) (use assms i in auto)
qed

lemma densify_step_shape:
  assumes "is_01_matrix n m"
  shows "length (densify_step m) = n" and "i < n \<Longrightarrow> length (densify_step m ! i) = n"
proof -
  have len: "length m = n" using assms by (simp add: is_01_matrix_def)
  show "length (densify_step m) = n"
    by (simp add: densify_step_def minimum_def mat_add_def matmul_def mat_T_def len)
  show "length (densify_step m ! i) = n" if "i < n"
    using that is_01_matrix_nth(1) [OF assms that]
    by (simp add: densify_step_def minimum_def mat_add_def matmul_def mat_T_def len)
qed

lemma densify_step_nth:
  assumes "is_01_matrix n m" "i < n" "j < n"
  shows "densify_step m ! i ! j = min (m ! i ! j + (\<Sum>k\<leftarrow>[0..<n]. m ! k ! i * m ! k ! j)) 1"
proof -
  have len: "length m = n" using assms by (simp add: is_01_matrix_def)
  have row: "length (m ! i) = n" using assms is_01_matrix_nth(1) by blast
  have "map (\<lambda>k. map (\<lambda>ia. m ! ia ! i) [0..<n] ! k * m ! k ! j) [0..<n]
      = map (\<lambda>k. m ! k ! i * m ! k ! j) [0..<n]"
    by (rule map_cong) auto
  then have sumeq: "(\<Sum>k\<leftarrow>[0..<n]. map (\<lambda>ia. m ! ia ! i) [0..<n] ! k * m ! k ! j)
      = (\<Sum>k\<leftarrow>[0..<n]. m ! k ! i * m ! k ! j)"
    by (rule arg_cong)
  show ?thesis using assms(2,3) row
    by (simp add: densify_step_def minimum_def mat_add_def matmul_def mat_T_def len sumeq)
qed

lemma column_products_nonneg:
  assumes "is_01_matrix n m" "i < n" "j < n"
  shows "0 \<le> (\<Sum>k\<leftarrow>[0..<n]. m ! k ! i * m ! k ! j)"
proof (rule sum_list_nonneg)
  fix x assume "x \<in> set (map (\<lambda>k. m ! k ! i * m ! k ! j) [0..<n])"
  then obtain k where k: "k < n" "x = m ! k ! i * m ! k ! j" by auto
  from is_01_matrix_nth(2) [OF assms(1) k(1) assms(2)] is_01_matrix_nth(2) [OF assms(1) k(1) assms(3)]
  show "0 \<le> x" unfolding k(2) by auto
qed

lemma sum_list_01_nonneg:
  "(\<And>x. x \<in> set xs \<Longrightarrow> f x = 0 \<or> f x = (1::int)) \<Longrightarrow> 0 \<le> sum_list (map f xs)"
proof (induction xs)
  case Nil
  show ?case by simp
next
  case (Cons x xs)
  have "f x = 0 \<or> f x = 1" using Cons.prems by simp
  moreover have "0 \<le> sum_list (map f xs)" using Cons by simp
  ultimately show ?case by auto
qed

lemma sum_list_01_pos_iff:
  "(\<And>x. x \<in> set xs \<Longrightarrow> f x = 0 \<or> f x = (1::int)) \<Longrightarrow>
   0 < sum_list (map f xs) \<longleftrightarrow> (\<exists>x \<in> set xs. f x = 1)"
proof (induction xs)
  case Nil
  show ?case by simp
next
  case (Cons x xs)
  have fx: "f x = 0 \<or> f x = 1" using Cons.prems by simp
  have nn: "0 \<le> sum_list (map f xs)" by (rule sum_list_01_nonneg) (simp add: Cons.prems)
  have IH: "0 < sum_list (map f xs) \<longleftrightarrow> (\<exists>x \<in> set xs. f x = 1)"
    by (rule Cons.IH) (simp add: Cons.prems)
  show ?case
  proof (cases "f x = 1")
    case True
    then show ?thesis using nn by simp
  next
    case False
    then have "f x = 0" using fx by simp
    then show ?thesis using IH by simp
  qed
qed

lemma product_01:
  assumes "a = 0 \<or> a = (1::int)" "b = 0 \<or> b = (1::int)"
  shows "a * b = 0 \<or> a * b = 1" and "a * b = 1 \<longleftrightarrow> a = 1 \<and> b = 1"
  using assms by auto

lemma column_products_pos_iff:
  assumes "is_01_matrix n m" "i < n" "j < n"
  shows "0 < (\<Sum>k\<leftarrow>[0..<n]. m ! k ! i * m ! k ! j)
     \<longleftrightarrow> (\<exists>k<n. m ! k ! i = 1 \<and> m ! k ! j = 1)"
proof -
  have e: "\<And>k. k < n \<Longrightarrow> (m ! k ! i = 0 \<or> m ! k ! i = 1) \<and> (m ! k ! j = 0 \<or> m ! k ! j = 1)"
    using is_01_matrix_nth(2) [OF assms(1)] assms(2,3) by blast
  have "0 < sum_list (map (\<lambda>k. m ! k ! i * m ! k ! j) [0..<n])
      \<longleftrightarrow> (\<exists>k \<in> set [0..<n]. m ! k ! i * m ! k ! j = 1)"
  proof (rule sum_list_01_pos_iff)
    fix k assume "k \<in> set [0..<n]"
    then have "k < n" by simp
    from e [OF this] show "m ! k ! i * m ! k ! j = 0 \<or> m ! k ! i * m ! k ! j = 1"
      using product_01(1) by blast
  qed
  also have "\<dots> \<longleftrightarrow> (\<exists>k<n. m ! k ! i = 1 \<and> m ! k ! j = 1)"
  proof
    assume "\<exists>k \<in> set [0..<n]. m ! k ! i * m ! k ! j = 1"
    then obtain k where k: "k < n" "m ! k ! i * m ! k ! j = 1" by auto
    from e [OF k(1)] k(2) have "m ! k ! i = 1 \<and> m ! k ! j = 1"
      using product_01(2) by blast
    with k(1) show "\<exists>k<n. m ! k ! i = 1 \<and> m ! k ! j = 1" by blast
  next
    assume "\<exists>k<n. m ! k ! i = 1 \<and> m ! k ! j = 1"
    then obtain k where "k < n" "m ! k ! i = 1" "m ! k ! j = 1" by blast
    then have "k \<in> set [0..<n]" "m ! k ! i * m ! k ! j = 1" by simp_all
    then show "\<exists>k \<in> set [0..<n]. m ! k ! i * m ! k ! j = 1" by blast
  qed
  finally show ?thesis .
qed

lemma densify_step_one_iff:
  assumes "is_01_matrix n m" "i < n" "j < n"
  shows "densify_step m ! i ! j = 1
     \<longleftrightarrow> m ! i ! j = 1 \<or> (\<exists>k<n. m ! k ! i = 1 \<and> m ! k ! j = 1)"
  using column_products_pos_iff [OF assms] column_products_nonneg [OF assms]
    is_01_matrix_nth(2) [OF assms]
  unfolding densify_step_nth [OF assms] by (auto simp: min_def)

lemma densify_step_zero_or_one:
  assumes "is_01_matrix n m" "i < n" "j < n"
  shows "densify_step m ! i ! j = 0 \<or> densify_step m ! i ! j = 1"
  using column_products_nonneg [OF assms] is_01_matrix_nth(2) [OF assms]
  unfolding densify_step_nth [OF assms] by (auto simp: min_def)

lemma densify_step_mono:
  assumes "is_01_matrix n m" "i < n" "j < n"
  shows "m ! i ! j \<le> densify_step m ! i ! j"
  using column_products_nonneg [OF assms] is_01_matrix_nth(2) [OF assms]
  unfolding densify_step_nth [OF assms] by (auto simp: min_def)

lemma densify_step_01:
  assumes "is_01_matrix n m"
  shows "is_01_matrix n (densify_step m)"
  by (rule is_01_matrixI)
    (use assms in \<open>auto simp: densify_step_shape densify_step_zero_or_one\<close>)

lemma ones_finite: "finite (ones n m)"
proof (rule finite_subset)
  show "ones n m \<subseteq> {..<n} \<times> {..<n}" by (auto simp: ones_def)
qed simp

lemma ones_card_le: "card (ones n m) \<le> n * n"
proof -
  have "card (ones n m) \<le> card ({..<n} \<times> {..<n})"
    by (rule card_mono) (auto simp: ones_def)
  then show ?thesis by simp
qed

lemma ones_grow:
  assumes "is_01_matrix n m" "densify_step m \<noteq> m"
  shows "card (ones n m) < card (ones n (densify_step m))"
proof (rule psubset_card_mono)
  show "finite (ones n (densify_step m))" by (rule ones_finite)
  have sub: "ones n m \<subseteq> ones n (densify_step m)"
    using assms(1) by (auto simp: ones_def densify_step_one_iff)
  have "\<exists>i j. i < n \<and> j < n \<and> densify_step m ! i ! j \<noteq> m ! i ! j"
  proof (rule ccontr)
    assume "\<not> ?thesis"
    then have "\<And>i j. i < n \<Longrightarrow> j < n \<Longrightarrow> densify_step m ! i ! j = m ! i ! j" by blast
    then have "densify_step m = m"
      using assms(1) by (intro mat_eqI [of _ n])
        (auto simp: densify_step_shape is_01_matrix_nth(1) is_01_matrix_def)
    with assms(2) show False by simp
  qed
  then obtain i j where ij: "i < n" "j < n" "densify_step m ! i ! j \<noteq> m ! i ! j" by blast
  from densify_step_mono [OF assms(1) ij(1,2)] densify_step_zero_or_one [OF assms(1) ij(1,2)]
    is_01_matrix_nth(2) [OF assms(1) ij(1,2)] ij(3)
  have "densify_step m ! i ! j = 1" "m ! i ! j \<noteq> 1" by auto
  then have "(i, j) \<in> ones n (densify_step m)" "(i, j) \<notin> ones n m"
    using ij by (auto simp: ones_def)
  with sub show "ones n m \<subset> ones n (densify_step m)" by blast
qed

lemma densify_loop_from_step:
  assumes "is_01_matrix n old"
  shows "\<exists>r. densify_loop (densify_step old) old = Some r \<and> is_01_matrix n r
     \<and> densify_step r = r \<and> (\<forall>i<n. \<forall>j<n. old ! i ! j \<le> r ! i ! j)"
  using assms
proof (induction "n * n - card (ones n old)" arbitrary: old rule: less_induct)
  case less
  show ?case
  proof (cases "densify_step old = old")
    case True
    then have "densify_loop (densify_step old) old = Some old"
      by (subst densify_loop.simps) simp
    then show ?thesis using True less.prems by simp
  next
    case False
    let ?new = "densify_step old"
    have new01: "is_01_matrix n ?new" using less.prems by (rule densify_step_01)
    have "card (ones n old) < card (ones n ?new)"
      using less.prems False by (rule ones_grow)
    moreover have "card (ones n ?new) \<le> n * n" by (rule ones_card_le)
    ultimately have "n * n - card (ones n ?new) < n * n - card (ones n old)" by linarith
    from less.hyps [OF this new01]
    obtain r where r: "densify_loop (densify_step ?new) ?new = Some r" "is_01_matrix n r"
      "densify_step r = r" "\<forall>i<n. \<forall>j<n. ?new ! i ! j \<le> r ! i ! j" by blast
    have "densify_loop ?new old = densify_loop (densify_step ?new) ?new"
      using False by (subst densify_loop.simps) simp
    moreover have "\<forall>i<n. \<forall>j<n. old ! i ! j \<le> r ! i ! j"
      using r(4) densify_step_mono [OF less.prems] by (meson order_trans)
    ultimately show ?thesis using r by simp
  qed
qed

lemma zeros_like_fixed:
  assumes "is_01_matrix n m" "zeros_like m = m"
  shows "densify_step m = m"
proof -
  have z: "\<And>i j. i < n \<Longrightarrow> j < n \<Longrightarrow> m ! i ! j = 0"
  proof -
    fix i j assume ij: "i < n" "j < n"
    have "zeros_like m ! i ! j = 0"
      using ij assms(1) by (simp add: zeros_like_def is_01_matrix_def list_all_length)
    then show "m ! i ! j = 0" unfolding assms(2) .
  qed
  show ?thesis
  proof (rule mat_eqI [of _ n])
    fix i j assume ij: "i < n" "j < n"
    have "\<not> (densify_step m ! i ! j = 1)"
      unfolding densify_step_one_iff [OF assms(1) ij] using z ij by simp
    then show "densify_step m ! i ! j = m ! i ! j"
      using densify_step_zero_or_one [OF assms(1) ij] z [OF ij] by simp
  qed (use assms(1) in \<open>auto simp: densify_step_shape is_01_matrix_nth(1) is_01_matrix_def\<close>)
qed

lemma densify_mat_result:
  assumes "is_01_matrix n m"
  shows "\<exists>r. densify_mat m = Some r \<and> is_01_matrix n r
     \<and> densify_step r = r \<and> (\<forall>i<n. \<forall>j<n. m ! i ! j \<le> r ! i ! j)"
proof (cases "zeros_like m = m")
  case True
  then have "densify_mat m = Some m"
    unfolding densify_mat_def by (subst densify_loop.simps) simp
  then show ?thesis using assms zeros_like_fixed [OF assms True] by simp
next
  case False
  then have "m \<noteq> zeros_like m" by metis
  then have "densify_mat m = densify_loop (densify_step m) m"
    unfolding densify_mat_def by (subst densify_loop.simps) simp
  then show ?thesis using densify_loop_from_step [OF assms] by simp
qed

text \<open>
  C3. For every square 0/1 matrix with 1 on the whole diagonal, \<open>_densify_mat\<close>
  returns, and the matrix \<open>M\<close> it returns is symmetric and transitive:
  \<open>M[i][j] = 1\<close> implies \<open>M[j][i] = 1\<close>, and \<open>M[i][j] = 1\<close> with \<open>M[j][k] = 1\<close>
  implies \<open>M[i][k] = 1\<close>.
\<close>

theorem densify_mat_symmetric_transitive:
  assumes "is_01_matrix n m" and "\<forall>i<n. m ! i ! i = 1"
  shows "\<exists>r. densify_mat m = Some r
     \<and> (\<forall>i<n. \<forall>j<n. r ! i ! j = 1 \<longrightarrow> r ! j ! i = 1)
     \<and> (\<forall>i<n. \<forall>j<n. \<forall>k<n. r ! i ! j = 1 \<and> r ! j ! k = 1 \<longrightarrow> r ! i ! k = 1)"
proof -
  from densify_mat_result [OF assms(1)]
  obtain r where r: "densify_mat m = Some r" "is_01_matrix n r" "densify_step r = r"
    "\<forall>i<n. \<forall>j<n. m ! i ! j \<le> r ! i ! j" by blast
  have diag: "r ! i ! i = 1" if "i < n" for i
    using r(4) assms(2) is_01_matrix_nth(2) [OF r(2) that that] that by force
  have close: "r ! i ! j = 1" if "i < n" "j < n" "k < n" "r ! k ! i = 1" "r ! k ! j = 1" for i j k
  proof -
    have "densify_step r ! i ! j = 1"
      unfolding densify_step_one_iff [OF r(2) that(1,2)] using that by blast
    then show ?thesis unfolding r(3) .
  qed
  have sym: "r ! j ! i = 1" if "i < n" "j < n" "r ! i ! j = 1" for i j
    using close [OF that(2) that(1) that(1) that(3) diag [OF that(1)]] .
  have trans: "r ! i ! k = 1" if "i < n" "j < n" "k < n" "r ! i ! j = 1" "r ! j ! k = 1" for i j k
    using close [OF that(1) that(3) that(2) sym [OF that(1,2,4)] that(5)] .
  show ?thesis using r(1) sym trans by blast
qed

text \<open>
  C4. \<open>_densify_mat\<close> terminates on every square 0/1 matrix: the loop returns a
  0/1 matrix that is a fixed point of the pass. Each pass computes
  \<open>min(old + old\<^sup>T \<cdot> old, 1)\<close>, keeps the matrix 0/1, and no entry decreases or
  exceeds 1.
\<close>

theorem densify_mat_terminates:
  assumes "is_01_matrix n m"
  shows "(\<exists>r. densify_mat m = Some r \<and> is_01_matrix n r \<and> densify_step r = r)
     \<and> is_01_matrix n (densify_step m)
     \<and> (\<forall>i<n. \<forall>j<n. m ! i ! j \<le> densify_step m ! i ! j \<and> densify_step m ! i ! j \<le> 1
           \<and> densify_step m ! i ! j
                = min (m ! i ! j + (\<Sum>k\<leftarrow>[0..<n]. m ! k ! i * m ! k ! j)) 1)"
proof -
  have a: "\<exists>r. densify_mat m = Some r \<and> is_01_matrix n r \<and> densify_step r = r"
    using densify_mat_result [OF assms] by blast
  have b: "is_01_matrix n (densify_step m)" using assms by (rule densify_step_01)
  have c: "m ! i ! j \<le> densify_step m ! i ! j \<and> densify_step m ! i ! j \<le> 1
           \<and> densify_step m ! i ! j
                = min (m ! i ! j + (\<Sum>k\<leftarrow>[0..<n]. m ! k ! i * m ! k ! j)) 1"
    if "i < n" "j < n" for i j
    using densify_step_mono [OF assms that] densify_step_zero_or_one [OF assms that]
      densify_step_nth [OF assms that] by auto
  show ?thesis using a b c by blast
qed

lemma upt_3: "[0..<3] = [0, 1, 2]"
  by (simp add: upt_rec [of 0] upt_rec [of "Suc 0"] upt_rec [of 2] numeral_3_eq_3)

lemma upt_2: "[0..<2] = [0, 1]"
  by (simp add: upt_rec [of 0] upt_rec [of "Suc 0"] numeral_2_eq_2)

lemma chain_mat_run: "densify_mat chain_mat = Some [[1, 1, 1], [1, 1, 1], [1, 1, 1]]"
  unfolding densify_mat_def chain_mat_def
  by (simp add: densify_loop.simps densify_step_def minimum_def mat_add_def matmul_def
      mat_T_def zeros_like_def upt_3)

text \<open>The statement of C3 at the chain \<open>0 \<rightarrow> 1 \<rightarrow> 2\<close> with the identity on the diagonal.\<close>

theorem densify_mat_symmetric_transitive_witness:
  "is_01_matrix 3 chain_mat
   \<and> chain_mat ! 0 ! 0 = 1 \<and> chain_mat ! 1 ! 1 = 1 \<and> chain_mat ! 2 ! 2 = 1
   \<and> densify_mat chain_mat = Some [[1, 1, 1], [1, 1, 1], [1, 1, 1]]"
proof -
  have h1: "is_01_matrix 3 chain_mat" by (simp add: is_01_matrix_def chain_mat_def)
  have d: "chain_mat ! 0 ! 0 = 1 \<and> chain_mat ! 1 ! 1 = 1 \<and> chain_mat ! 2 ! 2 = 1"
    by (simp add: chain_mat_def)
  have h2: "\<forall>i<3. chain_mat ! i ! i = 1"
  proof (intro allI impI)
    fix i :: nat assume "i < 3"
    then have "i = 0 \<or> i = 1 \<or> i = 2" by auto
    then show "chain_mat ! i ! i = 1" using d by auto
  qed
  from densify_mat_symmetric_transitive [OF h1 h2]
  obtain r where "densify_mat chain_mat = Some r" by blast
  then show ?thesis using h1 d chain_mat_run by simp
qed

lemma sparse_mat_run: "densify_mat sparse_mat = Some [[0, 1], [0, 1]]"
  unfolding densify_mat_def sparse_mat_def
  by (simp add: densify_loop.simps densify_step_def minimum_def mat_add_def matmul_def
      mat_T_def zeros_like_def upt_2)

text \<open>The statement of C4 at a matrix with a zero diagonal.\<close>

theorem densify_mat_terminates_witness:
  "is_01_matrix 2 sparse_mat \<and> densify_mat sparse_mat = Some [[0, 1], [0, 1]]
   \<and> densify_step [[0, 1], [0, 1]] = [[0, 1], [0, 1]]"
proof -
  have h: "is_01_matrix 2 sparse_mat" by (simp add: is_01_matrix_def sparse_mat_def)
  from densify_mat_terminates [OF h]
  obtain r where "densify_mat sparse_mat = Some r" "densify_step r = r" by blast
  then show ?thesis using h sparse_mat_run by simp
qed

section \<open>Facts about the probability estimator\<close>

lemma table_shape_nth:
  assumes "table_shape n_obj n_pred t"
  shows "length t = n_obj" and "x < n_obj \<Longrightarrow> length (t ! x) = n_obj"
    and "x < n_obj \<Longrightarrow> y < n_obj \<Longrightarrow> length (t ! x ! y) = n_pred"
  using assms by (auto simp: table_shape_def list_all_length)

lemma table_shapeI:
  assumes "length t = n_obj" "\<And>x. x < n_obj \<Longrightarrow> length (t ! x) = n_obj"
    "\<And>x y. x < n_obj \<Longrightarrow> y < n_obj \<Longrightarrow> length (t ! x ! y) = n_pred"
  shows "table_shape n_obj n_pred t"
  using assms by (auto simp: table_shape_def list_all_length)

lemma set_cell_shape:
  assumes "table_shape n_obj n_pred t"
  shows "table_shape n_obj n_pred (set_cell t c v)"
proof -
  obtain x y z where c: "c = (x, y, z)" by (cases c) auto
  note sh = table_shape_nth [OF assms]
  show ?thesis
  proof (rule table_shapeI)
    show "length (set_cell t c v) = n_obj" by (simp add: set_cell_def c sh(1))
  next
    fix x' assume "x' < n_obj"
    then show "length (set_cell t c v ! x') = n_obj"
      using sh(1,2) by (cases "x' = x") (simp_all add: set_cell_def c)
  next
    fix x' y' assume "x' < n_obj" "y' < n_obj"
    then show "length (set_cell t c v ! x' ! y') = n_pred"
      using sh by (cases "x' = x"; cases "y' = y") (simp_all add: set_cell_def c)
  qed
qed

lemma get_set_cell:
  assumes "table_shape n_obj n_pred t" "cell_in n_obj n_pred c"
  shows "get_cell (set_cell t c v) c' = (if c' = c then v else get_cell t c')"
proof -
  obtain x y z where c: "c = (x, y, z)" by (cases c) auto
  obtain x' y' z' where c': "c' = (x', y', z')" by (cases c') auto
  have r: "x < n_obj" "y < n_obj" "z < n_pred" using assms(2) by (simp_all add: cell_in_def c)
  note sh = table_shape_nth [OF assms(1)]
  show ?thesis
    using r sh
    by (cases "x' = x"; cases "y' = y"; cases "z' = z")
      (simp_all add: get_cell_def set_cell_def c c')
qed

lemma fold_set_cell:
  assumes "table_shape n_obj n_pred acc" "\<forall>c \<in> set cells. cell_in n_obj n_pred c"
  shows "table_shape n_obj n_pred (fold (\<lambda>c acc. set_cell acc c (f c)) cells acc)
     \<and> get_cell (fold (\<lambda>c acc. set_cell acc c (f c)) cells acc) c'
         = (if c' \<in> set cells then f c' else get_cell acc c')"
  using assms
proof (induction cells arbitrary: acc)
  case Nil
  then show ?case by simp
next
  case (Cons c cells)
  have sh: "table_shape n_obj n_pred (set_cell acc c (f c))"
    using Cons.prems(1) by (rule set_cell_shape)
  have "cell_in n_obj n_pred c" using Cons.prems(2) by simp
  then have g: "get_cell (set_cell acc c (f c)) c' = (if c' = c then f c else get_cell acc c')"
    using Cons.prems(1) by (simp add: get_set_cell)
  have rest: "\<forall>c \<in> set cells. cell_in n_obj n_pred c" using Cons.prems(2) by simp
  from Cons.IH [OF sh rest] show ?case unfolding g by auto
qed

lemma bump_cells_cell:
  assumes "table_shape n_obj n_pred t" "\<forall>c \<in> set cells. cell_in n_obj n_pred c"
  shows "table_shape n_obj n_pred (bump_cells t cells)"
    and "get_cell (bump_cells t cells) c' = get_cell t c' + (if c' \<in> set cells then 1 else 0)"
  using fold_set_cell [OF assms, of "\<lambda>c. get_cell t c + 1" c']
  by (simp_all add: bump_cells_def)

lemma traverse_Inr: "traverse f ts = Inr ys \<Longrightarrow> map f ts = map Inr ys"
proof (induction ts arbitrary: ys)
  case Nil
  then show ?case by simp
next
  case (Cons t ts)
  from Cons.prems obtain y ys' where y: "f t = Inr y" "traverse f ts = Inr ys'" "ys = y # ys'"
    by (auto split: sum.splits)
  from Cons.IH [OF y(2)] y(1,3) show ?case by simp
qed

lemma traverse_Inr_set:
  "traverse f ts = Inr ys \<Longrightarrow> y \<in> set ys \<longleftrightarrow> (\<exists>t \<in> set ts. f t = Inr y)"
proof (induction ts arbitrary: ys)
  case Nil
  then show ?case by simp
next
  case (Cons t ts)
  from Cons.prems obtain y0 ys' where y: "f t = Inr y0" "traverse f ts = Inr ys'" "ys = y0 # ys'"
    by (auto split: sum.splits)
  from Cons.IH [OF y(2)] y(1,3) show ?case by auto
qed

lemma py_index_range: "py_index n i = Inr k \<Longrightarrow> k < n"
  by (auto simp: py_index_def split: if_splits)

lemma class_cell_in:
  assumes "class_cell n_obj n_pred ids t = Inr c"
  shows "cell_in n_obj n_pred c"
proof -
  obtain s ob p where t: "t = (s, ob, p)" by (cases t) auto
  from assms obtain a b x y z where
    "py_index n_obj a = Inr x" "py_index n_obj b = Inr y" "py_index n_pred p = Inr z" "c = (x, y, z)"
    unfolding class_cell_def t by (auto split: sum.splits)
  then show ?thesis by (auto simp: cell_in_def dest: py_index_range)
qed

lemma ones_table_shape: "table_shape n_obj n_pred (ones_table n_obj n_pred)"
  by (rule table_shapeI) (simp_all add: ones_table_def)

lemma ones_table_cell:
  "cell_in n_obj n_pred c \<Longrightarrow> get_cell (ones_table n_obj n_pred) c = 1"
  by (cases c) (simp add: cell_in_def get_cell_def ones_table_def)

lemma unique_triplets_Inr:
  "unique_triplets R = Inr ts \<Longrightarrow> set ts = set (rel_triplets R)"
  by (auto simp: unique_triplets_def rel_triplets_def split: if_splits)

lemma count_anno_cells:
  assumes "table_shape n_obj n_pred t" "count_anno n_obj n_pred t a = Inr t'"
  shows "table_shape n_obj n_pred t'"
    and "get_cell t' c
          = get_cell t c + (if counted a \<and> observes n_obj n_pred a c then 1 else 0)"
proof -
  have cnt: "counted a \<longleftrightarrow> split_id a = 0 \<and> any_name (r_names (relations a))"
    by (simp add: counted_def any_name_def list_ex_iff)
  have "table_shape n_obj n_pred t' \<and> get_cell t' c
          = get_cell t c + (if counted a \<and> observes n_obj n_pred a c then 1 else 0)"
  proof (cases "counted a")
    case False
    then have "t' = t" using assms(2) unfolding cnt count_anno_def by (simp split: if_splits)
    then show ?thesis using assms(1) False by simp
  next
    case True
    then have g: "split_id a = 0 \<and> any_name (r_names (relations a))" unfolding cnt .
    from assms(2) obtain ts cells where
      ts: "unique_triplets (relations a) = Inr ts"
      and cells: "traverse (class_cell n_obj n_pred (o_ids (objects a))) ts = Inr cells"
      and t': "t' = bump_cells t cells"
      unfolding count_anno_def using g by (auto split: sum.splits if_splits)
    have rng: "\<forall>c \<in> set cells. cell_in n_obj n_pred c"
      using traverse_Inr_set [OF cells] class_cell_in by blast
    have mem: "c \<in> set cells \<longleftrightarrow> observes n_obj n_pred a c"
      unfolding traverse_Inr_set [OF cells] observes_def list_ex_iff
        unique_triplets_Inr [OF ts] ..
    show ?thesis
      using bump_cells_cell(1) [OF assms(1) rng] bump_cells_cell(2) [OF assms(1) rng, of c] True
      unfolding t' mem by simp
  qed
  then show "table_shape n_obj n_pred t'"
    and "get_cell t' c
          = get_cell t c + (if counted a \<and> observes n_obj n_pred a c then 1 else 0)"
    by blast+
qed

lemma count_annos_cells:
  assumes "table_shape n_obj n_pred t" "count_annos n_obj n_pred t annos = Inr t'"
  shows "table_shape n_obj n_pred t'
     \<and> get_cell t' c
         = get_cell t c + length (filter (\<lambda>a. counted a \<and> observes n_obj n_pred a c) annos)"
  using assms
proof (induction annos arbitrary: t)
  case Nil
  then show ?case by simp
next
  case (Cons a annos)
  from Cons.prems(2) obtain t1 where
    t1: "count_anno n_obj n_pred t a = Inr t1" "count_annos n_obj n_pred t1 annos = Inr t'"
    by (auto split: sum.splits)
  note step = count_anno_cells [OF Cons.prems(1) t1(1)]
  from Cons.IH [OF step(1) t1(2)] step(2) [of c] show ?case by simp
qed

lemma sum_list_ge_length:
  "(\<forall>c \<in> set row. 1 \<le> c) \<Longrightarrow> length row \<le> sum_list (row :: nat list)"
  by (induction row) auto

lemma sum_list_divide:
  "sum_list (map (\<lambda>c. of_nat c / (d :: rat)) row) = of_nat (sum_list row) / d"
  by (induction row) (simp_all add: add_divide_distrib)

lemma normalize_rows_nth:
  assumes "table_shape n_obj n_pred t" "x < n_obj" "y < n_obj"
  shows "normalize_rows t ! x ! y
     = map (\<lambda>c. of_nat c / of_nat (sum_list (t ! x ! y))) (t ! x ! y)"
  using table_shape_nth [OF assms(1)] assms(2,3) by (simp add: normalize_rows_def)

lemma count_table_facts:
  assumes "count_table annos predicates objs = Inr T"
  shows "table_shape (length objs) (length predicates) T"
    and "cell_in (length objs) (length predicates) c \<Longrightarrow>
         get_cell T c = 1 + length (filter (\<lambda>a. counted a
             \<and> observes (length objs) (length predicates) a c) annos)"
  using count_annos_cells [OF ones_table_shape assms [unfolded count_table_def], of c]
  by (simp_all add: ones_table_cell)

text \<open>
  C6, as the code has it. Before the division, a cell \<open>(x, y, z)\<close> of the table holds 1
  plus the number of images that are in the training split (\<open>split_id = 0\<close>), have at
  least one relation with a non-empty name (background relations included) and have
  some relation whose (subject class, object class, predicate id) triplet is
  \<open>(x, y, z)\<close>: such an image adds exactly 1 to the cell, however many of its relations
  carry that triplet, and no other image adds anything.
\<close>

theorem count_table_cells:
  assumes "count_table annos predicates objs = Inr T"
    and "x < length objs" and "y < length objs" and "z < length predicates"
  shows "T ! x ! y ! z
     = 1 + length (filter (\<lambda>a. split_id a = 0
             \<and> (\<exists>name \<in> set (r_names (relations a)). name \<noteq> [])
             \<and> observes (length objs) (length predicates) a (x, y, z)) annos)
     \<and> compute_relationship_probabilities annos predicates objs = Inr (normalize_rows T)"
proof -
  have "cell_in (length objs) (length predicates) (x, y, z)"
    using assms(2-4) by (simp add: cell_in_def)
  from count_table_facts(2) [OF assms(1) this]
  show ?thesis using assms(1)
    by (simp add: get_cell_def counted_def compute_relationship_probabilities_def conj_assoc)
qed

text \<open>
  C5. With a non-empty predicate vocabulary (it always ends with the background
  class), every row of the table \<open>compute_relationship_probabilities\<close> returns sums
  to 1 over the predicate axis. The division is well defined: every cell of the count
  table is at least 1, so the sum of a row is at least the size of the predicate
  vocabulary.
\<close>

theorem probability_rows_sum_to_one:
  assumes "compute_relationship_probabilities annos predicates objs = Inr P"
    and "predicates \<noteq> []" and "x < length objs" and "y < length objs"
  shows "sum_list (P ! x ! y) = 1
     \<and> (\<exists>T. count_table annos predicates objs = Inr T
          \<and> (\<forall>c \<in> set (T ! x ! y). 1 \<le> c)
          \<and> length predicates \<le> sum_list (T ! x ! y)
          \<and> P ! x ! y = map (\<lambda>c. of_nat c / of_nat (sum_list (T ! x ! y))) (T ! x ! y))"
proof -
  from assms(1) obtain T where T: "count_table annos predicates objs = Inr T"
    and P: "P = normalize_rows T"
    by (auto simp: compute_relationship_probabilities_def split: sum.splits)
  note sh = count_table_facts(1) [OF T]
  have len: "length (T ! x ! y) = length predicates"
    using table_shape_nth(3) [OF sh assms(3,4)] .
  have ge1: "\<forall>c \<in> set (T ! x ! y). 1 \<le> c"
  proof
    fix c assume "c \<in> set (T ! x ! y)"
    then obtain z where z: "z < length predicates" "c = T ! x ! y ! z"
      unfolding in_set_conv_nth len by blast
    have "cell_in (length objs) (length predicates) (x, y, z)"
      using assms(3,4) z(1) by (simp add: cell_in_def)
    from count_table_facts(2) [OF T this] show "1 \<le> c"
      unfolding z(2) by (simp add: get_cell_def)
  qed
  then have sum: "length predicates \<le> sum_list (T ! x ! y)"
    using sum_list_ge_length [of "T ! x ! y"] len by simp
  then have pos: "0 < sum_list (T ! x ! y)" using assms(2) by (cases predicates) auto
  have row: "P ! x ! y = map (\<lambda>c. of_nat c / of_nat (sum_list (T ! x ! y))) (T ! x ! y)"
    unfolding P by (rule normalize_rows_nth [OF sh assms(3,4)])
  have "(0 :: rat) < of_nat (sum_list (T ! x ! y))" using pos by (simp only: of_nat_0_less_iff)
  then have "(of_nat (sum_list (T ! x ! y)) :: rat) \<noteq> 0" by (rule less_imp_neq [THEN not_sym])
  then have "(of_nat (sum_list (T ! x ! y)) :: rat) / of_nat (sum_list (T ! x ! y)) = 1"
    by (rule divide_self)
  then have "sum_list (P ! x ! y) = 1"
    unfolding row sum_list_divide .
  then show ?thesis using T ge1 sum row by blast
qed

lemma background_only_run:
  "count_table [background_only_anno] [''on'', ''__background__''] [''car'', ''road'']
     = Inr [[[1, 1], [1, 2]], [[1, 2], [1, 1]]]"
  by code_simp

text \<open>
  C6. The specification states: cells are incremented only for training images that have at
  least one non-background relation. On the code the guard is \<open>any(names)\<close>, which a
  background relation satisfies as well (\<open>'__background__'\<close> is a non-empty string): a
  training image whose two relations are both background gets the cells
  \<open>(0, 1, background)\<close> and \<open>(1, 0, background)\<close> incremented, compared with the
  table of no image at all.
\<close>

theorem count_background_only_counterexample:
  "split_id background_only_anno = 0
   \<and> r_names (relations background_only_anno) = [''__background__'', ''__background__'']
   \<and> count_table [background_only_anno] [''on'', ''__background__''] [''car'', ''road'']
        = Inr [[[1, 1], [1, 2]], [[1, 2], [1, 1]]]
   \<and> count_table [] [''on'', ''__background__''] [''car'', ''road'']
        = Inr [[[1, 1], [1, 1]], [[1, 1], [1, 1]]]"
  unfolding background_only_run
  by (simp add: background_only_anno_def count_table_def ones_table_def numeral_2_eq_2)

lemma repeated_run:
  "count_table [repeated_anno, repeated_anno\<lparr>split_id := 1\<rparr>] [''on'', ''__background__'']
       [''car'', ''road'']
     = Inr [[[1, 1], [2, 1]], [[1, 1], [1, 1]]]"
  by code_simp

text \<open>
  The statement of C6 at two copies of one image, the second in the validation split:
  the triplet (car, road, on) is carried by three relations of the image, and its cell
  ends at 2.
\<close>

theorem count_table_cells_witness:
  "count_table [repeated_anno, repeated_anno\<lparr>split_id := 1\<rparr>] [''on'', ''__background__'']
       [''car'', ''road'']
     = Inr [[[1, 1], [2, 1]], [[1, 1], [1, 1]]]
   \<and> rel_triplets (relations repeated_anno) = [(0, 1, 0), (0, 1, 0), (2, 1, 0)]
   \<and> length (filter (\<lambda>a. split_id a = 0
             \<and> (\<exists>name \<in> set (r_names (relations a)). name \<noteq> [])
             \<and> observes 2 2 a (0, 1, 0)) [repeated_anno, repeated_anno\<lparr>split_id := 1\<rparr>]) = 1"
proof -
  let ?annos = "[repeated_anno, repeated_anno\<lparr>split_id := 1\<rparr>]"
  let ?n = "length (filter (\<lambda>a. split_id a = 0
             \<and> (\<exists>name \<in> set (r_names (relations a)). name \<noteq> [])
             \<and> observes 2 2 a (0, 1, 0)) ?annos)"
  have l: "(0::nat) < length [''car'', ''road'']" "(1::nat) < length [''car'', ''road'']"
    "(0::nat) < length [''on'', ''__background__'']" by simp_all
  have lens: "length [''car'', ''road''] = 2" "length [''on'', ''__background__''] = 2"
    by simp_all
  have v: "[[[1, 1], [2, 1]], [[1, 1], [1, 1 :: nat]]] ! 0 ! 1 ! 0 = 2" by simp
  from count_table_cells [OF repeated_run l(1) l(2) l(3)]
  have "[[[1, 1], [2, 1]], [[1, 1], [1, 1 :: nat]]] ! 0 ! 1 ! 0 = 1 + ?n"
    unfolding lens by (rule conjunct1)
  then have "?n = 1" unfolding v by linarith
  moreover have "rel_triplets (relations repeated_anno) = [(0, 1, 0), (0, 1, 0), (2, 1, 0)]"
    by (simp add: rel_triplets_def repeated_anno_def)
  ultimately show ?thesis using repeated_run by blast
qed

lemma probabilities_run:
  "compute_relationship_probabilities [repeated_anno] [''on'', ''__background__'']
       [''car'', ''road'']
     = Inr [[[1 / 2, 1 / 2], [2 / 3, 1 / 3]], [[1 / 2, 1 / 2], [1 / 2, 1 / 2]]]"
  by code_simp

text \<open>The statement of C5 at one training image, on the row (car, road).\<close>

theorem probability_rows_sum_to_one_witness:
  "compute_relationship_probabilities [repeated_anno] [''on'', ''__background__'']
       [''car'', ''road'']
     = Inr [[[1 / 2, 1 / 2], [2 / 3, 1 / 3]], [[1 / 2, 1 / 2], [1 / 2, 1 / 2]]]
   \<and> sum_list [2 / 3, 1 / (3 :: rat)] = 1"
proof -
  have l: "[''on'', ''__background__''] \<noteq> []" "(0::nat) < length [''car'', ''road'']"
    "(1::nat) < length [''car'', ''road'']" by simp_all
  from probability_rows_sum_to_one [OF probabilities_run l(1) l(2) l(3)]
  have "sum_list [2 / 3, 1 / (3 :: rat)] = 1" by simp
  then show ?thesis using probabilities_run by simp
qed

section \<open>Facts about the normalizer and the pipeline prefix\<close>

lemma set_iterationD:
  "set_iteration it \<Longrightarrow> distinct (it xs)" "set_iteration it \<Longrightarrow> set (it xs) = set xs"
  by (simp_all add: set_iteration_def)

lemma sorted_objects_facts:
  assumes "set_iteration it"
  shows "distinct (sorted_objects it rels)"
    and "set (sorted_objects it rels) = set (mentions rels)"
    and "sorted (map box_key (sorted_objects it rels))"
  using set_iterationD [OF assms] by (simp_all add: sorted_objects_def)

lemma map_of_rev_distinct:
  "distinct (map fst xs) \<Longrightarrow> map_of (rev xs) k = map_of xs k"
proof (induction xs)
  case Nil
  show ?case by simp
next
  case (Cons x xs)
  have IH: "map_of (rev xs) k = map_of xs k" using Cons by simp
  obtain a b where x: "x = (a, b)" using prod.exhaust by blast
  have notin: "a \<notin> fst ` set xs" using Cons.prems by (simp add: x)
  show ?case
  proof (cases "k = a")
    case True
    then have "map_of xs k = None" using notin by (simp add: map_of_eq_None_iff)
    then show ?thesis using True IH by (simp add: x map_add_def)
  next
    case False
    then show ?thesis using IH by (simp add: x map_add_def split: option.splits)
  qed
qed

lemma enumerate_dict_nth:
  assumes "distinct ks" "i < length ks"
  shows "enumerate_dict ks (ks ! i) = Some (int i)"
proof -
  have "distinct (map fst (zip ks (map int [0..<length ks])))"
    using assms(1) by (simp add: map_fst_zip)
  then have "enumerate_dict ks (ks ! i) = map_of (zip ks (map int [0..<length ks])) (ks ! i)"
    unfolding enumerate_dict_def by (rule map_of_rev_distinct)
  also have "\<dots> = Some (map int [0..<length ks] ! i)"
    by (rule map_of_zip_nth) (use assms in simp_all)
  finally show ?thesis using assms(2) by simp
qed

lemma lookup_enumerate_dict:
  assumes "distinct ks" "k \<in> set ks"
  shows "\<exists>i<length ks. lookup (enumerate_dict ks) k = Inr (int i) \<and> ks ! i = k"
proof -
  from assms(2) obtain i where i: "i < length ks" "ks ! i = k"
    unfolding in_set_conv_nth by blast
  from enumerate_dict_nth [OF assms(1) i(1)] i show ?thesis
    by (auto simp: lookup_def)
qed

lemma traverse_total:
  "(\<And>x. x \<in> set xs \<Longrightarrow> \<exists>y. f x = Inr y) \<Longrightarrow> \<exists>ys. traverse f xs = Inr ys"
proof (induction xs)
  case Nil
  show ?case by simp
next
  case (Cons x xs)
  from Cons.prems obtain y where y: "f x = Inr y" by auto
  from Cons obtain ys where "traverse f xs = Inr ys" by auto
  with y show ?case by simp
qed

lemma traverse_nth:
  "traverse f xs = Inr ys \<Longrightarrow>
     length ys = length xs \<and> (\<forall>i<length xs. f (xs ! i) = Inr (ys ! i))"
proof (induction xs arbitrary: ys)
  case Nil
  then show ?case by simp
next
  case (Cons x xs)
  from Cons.prems obtain y ys' where y: "f x = Inr y" "traverse f xs = Inr ys'" "ys = y # ys'"
    by (auto split: sum.splits)
  from Cons.IH [OF y(2)] y(1,3) show ?case by (auto simp: nth_Cons split: nat.splits)
qed

lemma traverse_cong:
  "(\<And>x. x \<in> set xs \<Longrightarrow> f x = g x) \<Longrightarrow> traverse f xs = traverse g xs"
proof (induction xs)
  case Nil
  show ?case by simp
next
  case (Cons x xs)
  have "f x = g x" using Cons.prems by simp
  moreover have "traverse f xs = traverse g xs" using Cons by simp
  ultimately show ?case by (simp split: sum.splits)
qed

lemma mentions_mem:
  "rel \<in> set rels \<Longrightarrow> (subject_box rel, subject rel) \<in> set (mentions rels)"
  "rel \<in> set rels \<Longrightarrow> (object_box rel, object rel) \<in> set (mentions rels)"
  by (auto simp: mentions_def)

lemma transform_anno_Inr:
  assumes "set_iteration it"
  shows "\<exists>subj_ids obj_ids.
      traverse (\<lambda>rel. lookup (enumerate_dict (sorted_objects it (relationships anno)))
                  (subject_box rel, subject rel)) (relationships anno) = Inr subj_ids
    \<and> traverse (\<lambda>rel. lookup (enumerate_dict (sorted_objects it (relationships anno)))
                  (object_box rel, object rel)) (relationships anno) = Inr obj_ids
    \<and> transform_anno it anno =
        Inr \<lparr> n_filename = raw_filename anno, n_split_id = raw_split_id anno,
              n_height = raw_height anno, n_width = raw_width anno,
              n_objects = \<lparr> n_names = map snd (sorted_objects it (relationships anno)),
                            n_boxes = map fst (sorted_objects it (relationships anno)) \<rparr>,
              n_relations = \<lparr> nr_names = map predicate (relationships anno),
                              nr_subj_ids = subj_ids, nr_obj_ids = obj_ids \<rparr> \<rparr>"
proof -
  let ?rels = "relationships anno"
  let ?objs = "sorted_objects it ?rels"
  note so = sorted_objects_facts [OF assms, of ?rels]
  have "\<exists>ys. traverse (\<lambda>rel. lookup (enumerate_dict ?objs) (subject_box rel, subject rel)) ?rels = Inr ys"
  proof (rule traverse_total)
    fix rel assume "rel \<in> set ?rels"
    then have "(subject_box rel, subject rel) \<in> set ?objs"
      unfolding so(2) by (rule mentions_mem)
    from lookup_enumerate_dict [OF so(1) this]
    show "\<exists>y. lookup (enumerate_dict ?objs) (subject_box rel, subject rel) = Inr y" by blast
  qed
  then obtain subj_ids where s:
    "traverse (\<lambda>rel. lookup (enumerate_dict ?objs) (subject_box rel, subject rel)) ?rels = Inr subj_ids"
    by blast
  have "\<exists>ys. traverse (\<lambda>rel. lookup (enumerate_dict ?objs) (object_box rel, object rel)) ?rels = Inr ys"
  proof (rule traverse_total)
    fix rel assume "rel \<in> set ?rels"
    then have "(object_box rel, object rel) \<in> set ?objs"
      unfolding so(2) by (rule mentions_mem)
    from lookup_enumerate_dict [OF so(1) this]
    show "\<exists>y. lookup (enumerate_dict ?objs) (object_box rel, object rel) = Inr y" by blast
  qed
  then obtain obj_ids where ob:
    "traverse (\<lambda>rel. lookup (enumerate_dict ?objs) (object_box rel, object rel)) ?rels = Inr obj_ids"
    by blast
  have "transform_anno it anno =
        Inr \<lparr> n_filename = raw_filename anno, n_split_id = raw_split_id anno,
              n_height = raw_height anno, n_width = raw_width anno,
              n_objects = \<lparr> n_names = map snd ?objs, n_boxes = map fst ?objs \<rparr>,
              n_relations = \<lparr> nr_names = map predicate ?rels,
                              nr_subj_ids = subj_ids, nr_obj_ids = obj_ids \<rparr> \<rparr>"
    by (simp add: transform_anno_def Let_def s ob)
  with s ob show ?thesis by blast
qed

lemma rank_of_lookup:
  assumes "distinct ks" "k \<in> set ks" "lookup (enumerate_dict ks) k = Inr v"
  shows "\<exists>i<length ks. v = int i \<and> ks ! i = k"
  using lookup_enumerate_dict [OF assms(1,2)] assms(3) by auto

text \<open>
  C7. Whatever order the set is iterated in, the normalizer returns for every image,
  and in what it returns: the object set (boxes paired with names) has no duplicate
  and holds exactly the \<open>(box, name)\<close> pairs that occur as a subject or as an object
  of the image's relationships; it is sorted by ascending \<open>x_min + x_max\<close>; and the
  subject and object reference of every relationship is the rank of its
  \<open>(box, name)\<close> pair in that list. The predicate names are kept in order.
\<close>

theorem transform_anno_object_set:
  assumes "set_iteration it"
  shows "\<exists>a. transform_anno it anno = Inr a
     \<and> length (n_boxes (n_objects a)) = length (n_names (n_objects a))
     \<and> distinct (zip (n_boxes (n_objects a)) (n_names (n_objects a)))
     \<and> set (zip (n_boxes (n_objects a)) (n_names (n_objects a)))
          = set (mentions (relationships anno))
     \<and> sorted (map (\<lambda>t. x_min (fst t) + x_max (fst t))
                 (zip (n_boxes (n_objects a)) (n_names (n_objects a))))
     \<and> nr_names (n_relations a) = map predicate (relationships anno)
     \<and> length (nr_subj_ids (n_relations a)) = length (relationships anno)
     \<and> length (nr_obj_ids (n_relations a)) = length (relationships anno)
     \<and> (\<forall>i<length (relationships anno).
          \<exists>k<length (n_boxes (n_objects a)).
            nr_subj_ids (n_relations a) ! i = int k
            \<and> zip (n_boxes (n_objects a)) (n_names (n_objects a)) ! k
                = (subject_box (relationships anno ! i), subject (relationships anno ! i)))
     \<and> (\<forall>i<length (relationships anno).
          \<exists>k<length (n_boxes (n_objects a)).
            nr_obj_ids (n_relations a) ! i = int k
            \<and> zip (n_boxes (n_objects a)) (n_names (n_objects a)) ! k
                = (object_box (relationships anno ! i), object (relationships anno ! i)))"
proof -
  let ?rels = "relationships anno"
  let ?objs = "sorted_objects it ?rels"
  note so = sorted_objects_facts [OF assms, of ?rels]
  from transform_anno_Inr [OF assms, of anno]
  obtain subj_ids obj_ids where
    s: "traverse (\<lambda>rel. lookup (enumerate_dict ?objs) (subject_box rel, subject rel)) ?rels = Inr subj_ids"
    and ob: "traverse (\<lambda>rel. lookup (enumerate_dict ?objs) (object_box rel, object rel)) ?rels = Inr obj_ids"
    and a: "transform_anno it anno =
        Inr \<lparr> n_filename = raw_filename anno, n_split_id = raw_split_id anno,
              n_height = raw_height anno, n_width = raw_width anno,
              n_objects = \<lparr> n_names = map snd ?objs, n_boxes = map fst ?objs \<rparr>,
              n_relations = \<lparr> nr_names = map predicate ?rels,
                              nr_subj_ids = subj_ids, nr_obj_ids = obj_ids \<rparr> \<rparr>"
    by blast
  have z: "zip (map fst ?objs) (map snd ?objs) = ?objs" by (simp add: zip_map_fst_snd)
  have key: "(\<lambda>t. x_min (fst t) + x_max (fst t)) = box_key" by (simp add: box_key_def fun_eq_iff)
  note ts = traverse_nth [OF s] and tob = traverse_nth [OF ob]
  have subj: "\<exists>k<length ?objs. subj_ids ! i = int k
      \<and> ?objs ! k = (subject_box (?rels ! i), subject (?rels ! i))" if "i < length ?rels" for i
  proof -
    have m: "(subject_box (?rels ! i), subject (?rels ! i)) \<in> set ?objs"
      unfolding so(2) using that by (intro mentions_mem) simp
    have "lookup (enumerate_dict ?objs) (subject_box (?rels ! i), subject (?rels ! i)) = Inr (subj_ids ! i)"
      using ts that by blast
    from rank_of_lookup [OF so(1) m this] show ?thesis .
  qed
  have obj: "\<exists>k<length ?objs. obj_ids ! i = int k
      \<and> ?objs ! k = (object_box (?rels ! i), object (?rels ! i))" if "i < length ?rels" for i
  proof -
    have m: "(object_box (?rels ! i), object (?rels ! i)) \<in> set ?objs"
      unfolding so(2) using that by (intro mentions_mem) simp
    have "lookup (enumerate_dict ?objs) (object_box (?rels ! i), object (?rels ! i)) = Inr (obj_ids ! i)"
      using tob that by blast
    from rank_of_lookup [OF so(1) m this] show ?thesis .
  qed
  show ?thesis
    unfolding a key using so ts tob subj obj by (simp add: z)
qed

lemma sort_key_deterministic:
  assumes "distinct xs" "distinct ys" "set xs = set ys" "inj_on f (set xs)"
  shows "sort_key f xs = sort_key f ys"
proof -
  let ?a = "sort_key f xs" and ?b = "sort_key f ys"
  have "map f ?a = map f ?b"
  proof (rule sorted_distinct_set_unique)
    show "sorted (map f ?a)" "sorted (map f ?b)" by (rule sorted_sort_key)+
    show "distinct (map f ?a)" using assms(1,4) by (simp add: distinct_map)
    show "distinct (map f ?b)" using assms(2,3,4) by (simp add: distinct_map)
    show "set (map f ?a) = set (map f ?b)" using assms(3) by simp
  qed
  moreover have "inj_on f (set ?a \<union> set ?b)" using assms(3,4) by simp
  ultimately show ?thesis by (simp add: inj_on_map_eq_map)
qed

lemma sorted_objects_deterministic:
  assumes "set_iteration it1" "set_iteration it2"
    "distinct (map box_key (remdups (mentions rels)))"
  shows "sorted_objects it1 rels = sorted_objects it2 rels"
  unfolding sorted_objects_def
proof (rule sort_key_deterministic)
  show "distinct (it1 (mentions rels))" "distinct (it2 (mentions rels))"
    using assms(1,2) by (simp_all add: set_iterationD)
  show "set (it1 (mentions rels)) = set (it2 (mentions rels))"
    using assms(1,2) by (simp add: set_iterationD)
  have "inj_on box_key (set (remdups (mentions rels)))"
    using assms(3) by (simp add: distinct_map)
  then show "inj_on box_key (set (it1 (mentions rels)))"
    using assms(1) by (simp add: set_iterationD)
qed

lemma transform_annotations_deterministic:
  assumes "set_iteration it1" "set_iteration it2" "tie_free raw"
  shows "transform_annotations it1 raw = transform_annotations it2 raw"
  unfolding transform_annotations_def
proof (rule traverse_cong)
  fix anno assume "anno \<in> set raw"
  then have "distinct (map box_key (remdups (mentions (relationships anno))))"
    using assms(3) by (simp add: tie_free_def list_all_iff)
  from sorted_objects_deterministic [OF assms(1,2) this]
  show "transform_anno it1 anno = transform_anno it2 anno"
    by (simp add: transform_anno_def)
qed

lemma sort_set_iteration:
  assumes "set_iteration it1" "set_iteration it2"
  shows "sort (it1 xs) = sort (it2 (xs :: string list))"
proof (rule sorted_distinct_set_unique)
  show "sorted (sort (it1 xs))" "sorted (sort (it2 xs))" by simp_all
  show "distinct (sort (it1 xs))" "distinct (sort (it2 xs))"
    using assms by (simp_all add: set_iterationD)
  show "set (sort (it1 xs)) = set (sort (it2 xs))"
    using assms by (simp add: set_iterationD)
qed

lemma save_predicates_objects_deterministic:
  assumes "set_iteration it1" "set_iteration it2"
  shows "save_predicates_objects it1 annos = save_predicates_objects it2 annos"
  unfolding save_predicates_objects_def
  using sort_set_iteration [OF assms] by simp

lemma normalize_and_complete_same:
  assumes "set_iteration it1" "set_iteration it2" "set_iteration itn1" "set_iteration itn2"
    "tie_free raw"
  shows "normalize_and_complete it1 itn1 raw = normalize_and_complete it2 itn2 raw"
  unfolding normalize_and_complete_def
    transform_annotations_deterministic [OF assms(1,2,5)]
    save_predicates_objects_deterministic [OF assms(3,4)] ..

lemma transform_annotations_total:
  assumes "set_iteration it"
  shows "\<exists>annos. transform_annotations it raw = Inr annos
     \<and> (\<forall>a \<in> set annos.
          length (nr_subj_ids (n_relations a)) = length (nr_names (n_relations a))
          \<and> length (nr_obj_ids (n_relations a)) = length (nr_names (n_relations a)))"
proof -
  have "\<exists>annos. traverse (transform_anno it) raw = Inr annos"
    by (rule traverse_total) (use transform_anno_Inr [OF assms] in blast)
  then obtain annos where annos: "traverse (transform_anno it) raw = Inr annos" by blast
  have "length (nr_subj_ids (n_relations a)) = length (nr_names (n_relations a))
      \<and> length (nr_obj_ids (n_relations a)) = length (nr_names (n_relations a))"
    if "a \<in> set annos" for a
  proof -
    from that obtain anno where an: "transform_anno it anno = Inr a"
      unfolding traverse_Inr_set [OF annos] by blast
    from transform_anno_Inr [OF assms, of anno] obtain subj_ids obj_ids where
      s: "traverse (\<lambda>rel. lookup (enumerate_dict (sorted_objects it (relationships anno)))
                  (subject_box rel, subject rel)) (relationships anno) = Inr subj_ids"
      and ob: "traverse (\<lambda>rel. lookup (enumerate_dict (sorted_objects it (relationships anno)))
                  (object_box rel, object rel)) (relationships anno) = Inr obj_ids"
      and a: "transform_anno it anno =
        Inr \<lparr> n_filename = raw_filename anno, n_split_id = raw_split_id anno,
              n_height = raw_height anno, n_width = raw_width anno,
              n_objects = \<lparr> n_names = map snd (sorted_objects it (relationships anno)),
                            n_boxes = map fst (sorted_objects it (relationships anno)) \<rparr>,
              n_relations = \<lparr> nr_names = map predicate (relationships anno),
                              nr_subj_ids = subj_ids, nr_obj_ids = obj_ids \<rparr> \<rparr>"
      by blast
    from an a have "n_relations a = \<lparr> nr_names = map predicate (relationships anno),
                              nr_subj_ids = subj_ids, nr_obj_ids = obj_ids \<rparr>" by auto
    then show ?thesis using traverse_nth [OF s] traverse_nth [OF ob] by simp
  qed
  then show ?thesis using annos unfolding transform_annotations_def by blast
qed

lemma lookup_total:
  assumes "k \<in> set ks"
  shows "\<exists>v. lookup (enumerate_dict ks) k = Inr v"
proof -
  have "map fst (zip ks (map int [0..<length ks])) = ks" by (rule map_fst_zip) simp
  then have "set (map fst (zip ks (map int [0..<length ks]))) = set ks" by (rule arg_cong)
  then have "fst ` set (rev (zip ks (map int [0..<length ks]))) = set ks"
    by (simp only: set_map set_rev)
  then have "k \<in> fst ` set (rev (zip ks (map int [0..<length ks])))"
    using assms by (simp only:)
  then have "map_of (rev (zip ks (map int [0..<length ks]))) k \<noteq> None"
    by (simp only: map_of_eq_None_iff not_not)
  then show ?thesis by (auto simp: lookup_def enumerate_dict_def)
qed

lemma update_labels_anno_total:
  assumes "set (nr_names (n_relations a)) \<subseteq> set predicates"
    "set (n_names (n_objects a)) \<subseteq> set objs"
    "length (nr_subj_ids (n_relations a)) = length (nr_names (n_relations a))"
    "length (nr_obj_ids (n_relations a)) = length (nr_names (n_relations a))"
  shows "\<exists>b. update_labels_anno (enumerate_dict predicates) (enumerate_dict objs) a = Inr b
     \<and> wf_relations (relations b)"
proof -
  have "\<exists>ys. traverse (lookup (enumerate_dict predicates)) (nr_names (n_relations a)) = Inr ys"
  proof (rule traverse_total)
    fix x assume "x \<in> set (nr_names (n_relations a))"
    then have "x \<in> set predicates" using assms(1) by (rule subsetD [rotated])
    then show "\<exists>y. lookup (enumerate_dict predicates) x = Inr y" by (rule lookup_total)
  qed
  then obtain rel_ids where r:
    "traverse (lookup (enumerate_dict predicates)) (nr_names (n_relations a)) = Inr rel_ids"
    by blast
  have "\<exists>ys. traverse (lookup (enumerate_dict objs)) (n_names (n_objects a)) = Inr ys"
  proof (rule traverse_total)
    fix x assume "x \<in> set (n_names (n_objects a))"
    then have "x \<in> set objs" using assms(2) by (rule subsetD [rotated])
    then show "\<exists>y. lookup (enumerate_dict objs) x = Inr y" by (rule lookup_total)
  qed
  then obtain object_ids where ob:
    "traverse (lookup (enumerate_dict objs)) (n_names (n_objects a)) = Inr object_ids"
    by blast
  have len: "length rel_ids = length (nr_names (n_relations a))"
    using traverse_nth [OF r] by (rule conjunct1)
  have "update_labels_anno (enumerate_dict predicates) (enumerate_dict objs) a =
      Inr \<lparr> filename = n_filename a, split_id = n_split_id a,
              height = n_height a, width = n_width a,
              objects = \<lparr> o_ids = object_ids, o_names = n_names (n_objects a),
                          o_boxes = n_boxes (n_objects a) \<rparr>,
              relations = \<lparr> r_ids = rel_ids, r_names = nr_names (n_relations a),
                            r_subj_ids = nr_subj_ids (n_relations a),
                            r_obj_ids = nr_obj_ids (n_relations a) \<rparr> \<rparr>"
    unfolding update_labels_anno_def r ob by simp
  moreover have "wf_relations \<lparr> r_ids = rel_ids, r_names = nr_names (n_relations a),
                            r_subj_ids = nr_subj_ids (n_relations a),
                            r_obj_ids = nr_obj_ids (n_relations a) \<rparr>"
    using len assms(3,4) by (simp add: wf_relations_def)
  ultimately show ?thesis by simp
qed

lemma save_predicates_objects_covers:
  assumes "set_iteration it" "save_predicates_objects it annos = (predicates, objs)" "a \<in> set annos"
  shows "set (nr_names (n_relations a)) \<subseteq> set predicates"
    and "set (n_names (n_objects a)) \<subseteq> set objs"
  using assms(2,3) set_iterationD(2) [OF assms(1)]
  by (auto simp: save_predicates_objects_def)

lemma create_pred_cls_json_total:
  "(\<And>a. a \<in> set annos \<Longrightarrow> wf_relations (relations a)) \<Longrightarrow>
   \<exists>r. create_pred_cls_json predicates annos = Inr r"
proof (induction annos)
  case Nil
  show ?case by simp
next
  case (Cons a annos)
  have "wf_relations (relations a)" using Cons.prems by simp
  from create_pred_cls_anno_total [OF this]
  obtain a' where "create_pred_cls_anno predicates a = Inr a'" by blast
  moreover from Cons obtain r where "create_pred_cls_json predicates annos = Inr r" by auto
  ultimately show ?case by simp
qed

lemma normalize_and_complete_total:
  assumes "set_iteration it" "set_iteration itn"
  shows "\<exists>r. normalize_and_complete it itn raw = Inr r"
proof -
  from transform_annotations_total [OF assms(1), of raw]
  obtain annos where annos: "transform_annotations it raw = Inr annos"
    and lens: "\<forall>a \<in> set annos.
          length (nr_subj_ids (n_relations a)) = length (nr_names (n_relations a))
          \<and> length (nr_obj_ids (n_relations a)) = length (nr_names (n_relations a))"
    by blast
  obtain predicates objs where sv: "save_predicates_objects itn annos = (predicates, objs)"
    by (cases "save_predicates_objects itn annos") auto
  have "\<exists>ys. traverse (update_labels_anno (enumerate_dict predicates) (enumerate_dict objs)) annos
      = Inr ys"
  proof (rule traverse_total)
    fix a assume a: "a \<in> set annos"
    from update_labels_anno_total [OF save_predicates_objects_covers [OF assms(2) sv a]]
      lens a
    show "\<exists>y. update_labels_anno (enumerate_dict predicates) (enumerate_dict objs) a = Inr y"
      by blast
  qed
  then obtain labelled where lab:
    "traverse (update_labels_anno (enumerate_dict predicates) (enumerate_dict objs)) annos
      = Inr labelled" by blast
  have "wf_relations (relations b)" if "b \<in> set labelled" for b
  proof -
    from that obtain a where a: "a \<in> set annos"
      "update_labels_anno (enumerate_dict predicates) (enumerate_dict objs) a = Inr b"
      unfolding traverse_Inr_set [OF lab] by blast
    from update_labels_anno_total [OF save_predicates_objects_covers [OF assms(2) sv a(1)]]
      lens a
    show ?thesis by auto
  qed
  from create_pred_cls_json_total [of labelled predicates, OF this]
  obtain r where "create_pred_cls_json predicates labelled = Inr r" by blast
  then show ?thesis
    by (simp add: normalize_and_complete_def annos sv update_labels_def lab)
qed

lemma set_iteration_remdups: "set_iteration remdups"
  by (simp add: set_iteration_def)

lemma set_iteration_rev_remdups: "set_iteration (rev \<circ> remdups)"
  by (simp add: set_iteration_def)

lemma street_run:
  "transform_anno remdups street_raw =
     Inr \<lparr> n_filename = ''s.jpg'', n_split_id = 0, n_height = 10, n_width = 20,
           n_objects = \<lparr> n_names = [''car'', ''road'', ''person''],
                         n_boxes = [BBox 0 9 0 8, BBox 5 9 0 19, BBox 0 9 10 14] \<rparr>,
           n_relations = \<lparr> nr_names = [''near'', ''on''], nr_subj_ids = [2, 0],
                           nr_obj_ids = [0, 1] \<rparr> \<rparr>"
  by code_simp

text \<open>The statement of C7 at an image with two relationships over three instances.\<close>

theorem transform_anno_object_set_witness:
  "set_iteration (remdups :: obj_tuple list \<Rightarrow> obj_tuple list)
   \<and> transform_anno remdups street_raw =
     Inr \<lparr> n_filename = ''s.jpg'', n_split_id = 0, n_height = 10, n_width = 20,
           n_objects = \<lparr> n_names = [''car'', ''road'', ''person''],
                         n_boxes = [BBox 0 9 0 8, BBox 5 9 0 19, BBox 0 9 10 14] \<rparr>,
           n_relations = \<lparr> nr_names = [''near'', ''on''], nr_subj_ids = [2, 0],
                           nr_obj_ids = [0, 1] \<rparr> \<rparr>
   \<and> sorted (map (\<lambda>t. x_min (fst t) + x_max (fst t))
        (zip [BBox 0 9 0 8, BBox 5 9 0 19, BBox 0 9 10 14] [''car'', ''road'', ''person'']))"
proof -
  from transform_anno_object_set [OF set_iteration_remdups, of street_raw]
  have "sorted (map (\<lambda>t. x_min (fst t) + x_max (fst t))
        (zip [BBox 0 9 0 8, BBox 5 9 0 19, BBox 0 9 10 14] [''car'', ''road'', ''person'']))"
    unfolding street_run by simp
  then show ?thesis using street_run by (simp add: set_iteration_remdups)
qed

lemma tie_run_1:
  "normalize_and_complete remdups remdups [tie_raw] =
     Inr [\<lparr> filename = ''t.jpg'', split_id = 0, height = 10, width = 20,
            objects = \<lparr> o_ids = [1, 0], o_names = [''person'', ''horse''],
                        o_boxes = [BBox 0 9 2 6, BBox 0 9 0 8] \<rparr>,
            relations = \<lparr> r_ids = [0, 1], r_names = [''ride'', ''__background__''],
                          r_subj_ids = [0, 1], r_obj_ids = [1, 0] \<rparr> \<rparr>]"
  by code_simp

lemma tie_run_2:
  "normalize_and_complete (rev \<circ> remdups) remdups [tie_raw] =
     Inr [\<lparr> filename = ''t.jpg'', split_id = 0, height = 10, width = 20,
            objects = \<lparr> o_ids = [0, 1], o_names = [''horse'', ''person''],
                        o_boxes = [BBox 0 9 0 8, BBox 0 9 2 6] \<rparr>,
            relations = \<lparr> r_ids = [1, 0], r_names = [''__background__'', ''ride''],
                          r_subj_ids = [0, 1], r_obj_ids = [1, 0] \<rparr> \<rparr>]"
  by code_simp

text \<open>
  C9. The specification states: two runs of normalizer and pair completion on the same raw
  input give the same object set ordering and the same relation arrays, also when
  distinct instances share the key \<open>x_min + x_max\<close>. On the code the order of two
  such instances is the iteration order of a Python set: for the image whose two
  boxes both have key 8, a run that iterates the set as (person, horse) and a run
  that iterates it as (horse, person) return different object sets and different
  relation arrays.
\<close>

theorem normalize_and_complete_tie_counterexample:
  "set_iteration (remdups :: obj_tuple list \<Rightarrow> obj_tuple list)
   \<and> set_iteration (rev \<circ> remdups :: obj_tuple list \<Rightarrow> obj_tuple list)
   \<and> set_iteration (remdups :: string list \<Rightarrow> string list)
   \<and> box_key (BBox 0 9 2 6, ''person'') = box_key (BBox 0 9 0 8, ''horse'')
   \<and> normalize_and_complete remdups remdups [tie_raw] =
     Inr [\<lparr> filename = ''t.jpg'', split_id = 0, height = 10, width = 20,
            objects = \<lparr> o_ids = [1, 0], o_names = [''person'', ''horse''],
                        o_boxes = [BBox 0 9 2 6, BBox 0 9 0 8] \<rparr>,
            relations = \<lparr> r_ids = [0, 1], r_names = [''ride'', ''__background__''],
                          r_subj_ids = [0, 1], r_obj_ids = [1, 0] \<rparr> \<rparr>]
   \<and> normalize_and_complete (rev \<circ> remdups) remdups [tie_raw] =
     Inr [\<lparr> filename = ''t.jpg'', split_id = 0, height = 10, width = 20,
            objects = \<lparr> o_ids = [0, 1], o_names = [''horse'', ''person''],
                        o_boxes = [BBox 0 9 0 8, BBox 0 9 2 6] \<rparr>,
            relations = \<lparr> r_ids = [1, 0], r_names = [''__background__'', ''ride''],
                          r_subj_ids = [0, 1], r_obj_ids = [1, 0] \<rparr> \<rparr>]
   \<and> normalize_and_complete remdups remdups [tie_raw]
       \<noteq> normalize_and_complete (rev \<circ> remdups) remdups [tie_raw]"
  unfolding tie_run_1 tie_run_2
  by (simp add: box_key_def set_iteration_remdups set_iteration_rev_remdups)

text \<open>
  C9, as the code has it. When in every image distinct instances have distinct keys
  \<open>x_min + x_max\<close>, the pipeline prefix returns, and two runs return the same
  annotations (object sets and relation arrays, order included), whatever the
  iteration orders of the sets in the two runs.
\<close>

theorem normalize_and_complete_deterministic:
  assumes "set_iteration it1" and "set_iteration it2"
    and "set_iteration itn1" and "set_iteration itn2" and "tie_free raw"
  shows "\<exists>annos. normalize_and_complete it1 itn1 raw = Inr annos
     \<and> normalize_and_complete it2 itn2 raw = Inr annos"
proof -
  from normalize_and_complete_total [OF assms(1,3), of raw]
  obtain annos where "normalize_and_complete it1 itn1 raw = Inr annos" by blast
  moreover have "normalize_and_complete it1 itn1 raw = normalize_and_complete it2 itn2 raw"
    using assms by (rule normalize_and_complete_same)
  ultimately show ?thesis by simp
qed

lemma street_pipeline_run:
  "normalize_and_complete remdups remdups [street_raw] =
     Inr [\<lparr> filename = ''s.jpg'', split_id = 0, height = 10, width = 20,
            objects = \<lparr> o_ids = [0, 2, 1], o_names = [''car'', ''road'', ''person''],
                        o_boxes = [BBox 0 9 0 8, BBox 5 9 0 19, BBox 0 9 10 14] \<rparr>,
            relations = \<lparr> r_ids = [1, 2, 2, 2, 0, 2],
                          r_names = [''on'', ''__background__'', ''__background__'',
                                     ''__background__'', ''near'', ''__background__''],
                          r_subj_ids = [0, 0, 1, 1, 2, 2],
                          r_obj_ids = [1, 2, 0, 2, 0, 1] \<rparr> \<rparr>]"
  by code_simp

text \<open>The statement of C9 at an image without ties and two opposite iteration orders.\<close>

theorem normalize_and_complete_deterministic_witness:
  "set_iteration (remdups :: obj_tuple list \<Rightarrow> obj_tuple list)
   \<and> set_iteration (rev \<circ> remdups :: obj_tuple list \<Rightarrow> obj_tuple list)
   \<and> set_iteration (remdups :: string list \<Rightarrow> string list)
   \<and> set_iteration (rev \<circ> remdups :: string list \<Rightarrow> string list)
   \<and> tie_free [street_raw]
   \<and> normalize_and_complete (rev \<circ> remdups) (rev \<circ> remdups) [street_raw]
       = normalize_and_complete remdups remdups [street_raw]"
proof -
  have tf: "tie_free [street_raw]" by code_simp
  from normalize_and_complete_deterministic
    [OF set_iteration_remdups set_iteration_rev_remdups set_iteration_remdups
      set_iteration_rev_remdups tf]
  have "normalize_and_complete (rev \<circ> remdups) (rev \<circ> remdups) [street_raw]
       = normalize_and_complete remdups remdups [street_raw]"
    by auto
  then show ?thesis
    using tf by (simp add: set_iteration_remdups set_iteration_rev_remdups)
qed

section \<open>Facts about the negative miner\<close>

lemma nat_get_Inr: "nat_get xs i = Inr v \<longleftrightarrow> i < length xs \<and> v = xs ! i"
  by (auto simp: nat_get_def)

lemma rule1_applies_Inr:
  assumes "rule1_applies a (r_subj_ids (relations a) ! n) subj_box (r_obj_ids (relations a) ! n)
             (r_names (relations a) ! n) r (r_names (relations a) ! r) = Inr b"
    and "py_get (o_boxes (objects a)) (r_subj_ids (relations a) ! n) = Inr subj_box"
  shows "b = rule1_fires a n r"
proof -
  from assms(1) obtain this_subj_box where
    r: "r < length (r_subj_ids (relations a))"
    and tb: "py_get (o_boxes (objects a)) (r_subj_ids (relations a) ! r) = Inr this_subj_box"
    unfolding rule1_applies_def by (auto simp: nat_get_def split: sum.splits if_splits)
  show ?thesis
  proof (cases "r_subj_ids (relations a) ! r \<noteq> r_subj_ids (relations a) ! n")
    case False
    then show ?thesis using assms r tb
      by (simp add: rule1_applies_def rule1_fires_def nat_get_def)
  next
    case ne: True
    from assms(1) ne r tb obtain below where
      below: "overlap_below this_subj_box subj_box = Inr below"
      unfolding rule1_applies_def by (auto simp: nat_get_def split: sum.splits if_splits)
    show ?thesis
    proof (cases "below \<and> r_names (relations a) ! r \<noteq> r_names (relations a) ! n")
      case False
      then show ?thesis using assms r tb ne below
        by (auto simp: rule1_applies_def rule1_fires_def nat_get_def split: if_splits)
    next
      case True
      then show ?thesis using assms r tb ne below
        by (auto simp: rule1_applies_def rule1_fires_def nat_get_def split: if_splits sum.splits)
    qed
  qed
qed

lemma rule2_applies_Inr:
  assumes "rule2_applies a (r_subj_ids (relations a) ! n) (r_obj_ids (relations a) ! n) obj_box
             (r_names (relations a) ! n) r (r_names (relations a) ! r) = Inr b"
    and "py_get (o_boxes (objects a)) (r_obj_ids (relations a) ! n) = Inr obj_box"
  shows "b = rule2_fires a n r"
proof -
  from assms(1) obtain this_obj_box where
    r: "r < length (r_obj_ids (relations a))" "r < length (r_subj_ids (relations a))"
    and tb: "py_get (o_boxes (objects a)) (r_obj_ids (relations a) ! r) = Inr this_obj_box"
    unfolding rule2_applies_def by (auto simp: nat_get_def split: sum.splits if_splits)
  show ?thesis
  proof (cases "r_subj_ids (relations a) ! r = r_subj_ids (relations a) ! n
      \<and> r_names (relations a) ! r \<noteq> r_names (relations a) ! n
      \<and> r_obj_ids (relations a) ! r \<noteq> r_obj_ids (relations a) ! n")
    case False
    then show ?thesis using assms r tb
      by (auto simp: rule2_applies_def rule2_fires_def nat_get_def split: if_splits)
  next
    case True
    then have "overlap_below this_obj_box obj_box = Inr b"
      using assms(1) r tb by (simp add: rule2_applies_def nat_get_def)
    then show ?thesis using True assms(2) tb
      by (auto simp: rule2_fires_def)
  qed
qed

lemma append_neg_Inr:
  assumes "append_neg neg r0 a n = Inr neg1"
  shows "r0 < length neg" and "neg1 = neg[r0 := neg ! r0 @ [r_ids (relations a) ! n]]"
  using assms by (auto simp: append_neg_def nat_get_def split: if_splits)

lemma rule_loop_Inr:
  assumes "rule_loop f a n ps neg = Inr neg'" "distinct (map fst ps)"
  shows "length neg' = length neg
     \<and> (\<forall>r<length neg. neg' ! r = neg ! r @
           (if \<exists>rel. (r, rel) \<in> set ps \<and> f r rel = Inr True
            then [r_ids (relations a) ! n] else []))"
  using assms
proof (induction ps arbitrary: neg)
  case Nil
  then show ?case by simp
next
  case (Cons p rest)
  obtain r0 rel0 where p: "p = (r0, rel0)" by (cases p) auto
  from Cons.prems(1) obtain b where b: "f r0 rel0 = Inr b"
    unfolding p by (auto split: sum.splits)
  have d: "distinct (map fst rest)" "\<And>rel. (r0, rel) \<notin> set rest"
    using Cons.prems(2) unfolding p by (auto simp: image_iff)
  show ?case
  proof (cases b)
    case False
    then have run: "rule_loop f a n rest neg = Inr neg'"
      using Cons.prems(1) b unfolding p by simp
    have hit: "(\<exists>rel. (r, rel) \<in> set (p # rest) \<and> f r rel = Inr True)
        \<longleftrightarrow> (\<exists>rel. (r, rel) \<in> set rest \<and> f r rel = Inr True)" for r
      using b False unfolding p by auto
    from Cons.IH [OF run d(1)] show ?thesis unfolding hit .
  next
    case True
    from Cons.prems(1) b True obtain neg1 where
      ap: "append_neg neg r0 a n = Inr neg1" and run: "rule_loop f a n rest neg1 = Inr neg'"
      unfolding p by (auto split: sum.splits)
    note a1 = append_neg_Inr [OF ap]
    have len1: "length neg1 = length neg" unfolding a1(2) by simp
    note IH = Cons.IH [OF run d(1), unfolded len1]
    have "neg' ! r = neg ! r @
           (if \<exists>rel. (r, rel) \<in> set (p # rest) \<and> f r rel = Inr True
            then [r_ids (relations a) ! n] else [])" if r: "r < length neg" for r
    proof (cases "r = r0")
      case True
      have "neg' ! r0 = neg1 ! r0" using IH a1(1) d(2) by simp
      also have "\<dots> = neg ! r0 @ [r_ids (relations a) ! n]" unfolding a1(2) using a1(1) by simp
      finally show ?thesis using True b \<open>b\<close> unfolding p by auto
    next
      case False
      have hit: "(\<exists>rel. (r, rel) \<in> set (p # rest) \<and> f r rel = Inr True)
        \<longleftrightarrow> (\<exists>rel. (r, rel) \<in> set rest \<and> f r rel = Inr True)"
        using False unfolding p by auto
      have "neg1 ! r = neg ! r" unfolding a1(2) using False by simp
      then show ?thesis using IH r unfolding hit by simp
    qed
    then show ?thesis using IH by simp
  qed
qed

lemma py_enumerate_nth: "py_enumerate xs = map (\<lambda>i. (i, xs ! i)) [0..<length xs]"
  by (rule nth_equalityI) (simp_all add: py_enumerate_def)

lemma py_enumerate_mem:
  "(i, x) \<in> set (py_enumerate xs) \<longleftrightarrow> i < length xs \<and> x = xs ! i"
  unfolding py_enumerate_nth by auto

lemma py_enumerate_distinct: "distinct (map fst (py_enumerate xs))"
  by (simp add: py_enumerate_def)

lemma rule_loop_all_Inr:
  "rule_loop f a n ps neg = Inr neg' \<Longrightarrow> p \<in> set ps \<Longrightarrow> \<exists>b. f (fst p) (snd p) = Inr b"
proof (induction ps arbitrary: neg)
  case Nil
  then show ?case by simp
next
  case (Cons q rest)
  obtain r0 rel0 where q: "q = (r0, rel0)" by (cases q) auto
  from Cons.prems(1) obtain b where b: "f r0 rel0 = Inr b"
    unfolding q by (auto split: sum.splits)
  show ?case
  proof (cases "p = q")
    case True
    then show ?thesis using b q by simp
  next
    case False
    then have "p \<in> set rest" using Cons.prems(2) by simp
    moreover from Cons.prems(1) b obtain neg1 where "rule_loop f a n rest neg1 = Inr neg'"
      unfolding q by (auto split: sum.splits if_splits)
    ultimately show ?thesis using Cons.IH by blast
  qed
qed

lemma mine_relation_Inr:
  assumes "mine_relation r1 r2 a n (r_names (relations a) ! n) neg = Inr neg'"
  shows "length neg' = length neg
     \<and> (\<forall>r<length neg. neg' ! r = neg ! r @
           (if r < length (r_names (relations a)) \<and> fires r1 r2 a n r
            then [r_ids (relations a) ! n] else []))"
proof -
  let ?R = "relations a"
  let ?names = "r_names ?R"
  from assms obtain obj_box subj_box where
    n: "n < length (r_obj_ids ?R)" "n < length (r_subj_ids ?R)"
    and ob: "py_get (o_boxes (objects a)) (r_obj_ids ?R ! n) = Inr obj_box"
    and sb: "py_get (o_boxes (objects a)) (r_subj_ids ?R ! n) = Inr subj_box"
    unfolding mine_relation_def by (auto simp: nat_get_def split: sum.splits if_splits)
  have body: "mine_relation r1 r2 a n (?names ! n) neg =
      (if ?names ! n \<in> set r1 then
        rule_loop (rule1_applies a (r_subj_ids ?R ! n) subj_box (r_obj_ids ?R ! n) (?names ! n))
          a n (py_enumerate ?names) neg
      else if ?names ! n \<in> set r2 then
        rule_loop (rule2_applies a (r_subj_ids ?R ! n) (r_obj_ids ?R ! n) obj_box (?names ! n))
          a n (py_enumerate ?names) neg
      else Inr neg)"
    using n ob sb by (simp add: mine_relation_def nat_get_def)
  have generic: "length neg' = length neg
     \<and> (\<forall>r<length neg. neg' ! r = neg ! r @
           (if r < length ?names \<and> g r then [r_ids ?R ! n] else []))"
    if run: "rule_loop f a n (py_enumerate ?names) neg = Inr neg'"
      and pure: "\<And>r b. f r (?names ! r) = Inr b \<Longrightarrow> b = g r"
    for f g
  proof -
    have hit: "(\<exists>rel. (r, rel) \<in> set (py_enumerate ?names) \<and> f r rel = Inr True)
        \<longleftrightarrow> r < length ?names \<and> g r" for r
    proof (cases "r < length ?names")
      case False
      then show ?thesis by (simp add: py_enumerate_mem)
    next
      case True
      then have "(r, ?names ! r) \<in> set (py_enumerate ?names)" by (simp add: py_enumerate_mem)
      from rule_loop_all_Inr [OF run this] obtain b where b: "f r (?names ! r) = Inr b" by auto
      from pure [OF b] b True show ?thesis by (auto simp: py_enumerate_mem)
    qed
    from rule_loop_Inr [OF run py_enumerate_distinct] show ?thesis unfolding hit .
  qed
  show ?thesis
  proof (cases "?names ! n \<in> set r1")
    case True
    then have run: "rule_loop (rule1_applies a (r_subj_ids ?R ! n) subj_box (r_obj_ids ?R ! n)
        (?names ! n)) a n (py_enumerate ?names) neg = Inr neg'"
      using assms body by simp
    have f: "fires r1 r2 a n = rule1_fires a n" using True by (simp add: fires_def fun_eq_iff)
    from generic [OF run, of "rule1_fires a n"] rule1_applies_Inr [OF _ sb]
    show ?thesis unfolding f by blast
  next
    case False
    note not1 = this
    show ?thesis
    proof (cases "?names ! n \<in> set r2")
      case True
      then have run: "rule_loop (rule2_applies a (r_subj_ids ?R ! n) (r_obj_ids ?R ! n) obj_box
          (?names ! n)) a n (py_enumerate ?names) neg = Inr neg'"
        using assms body not1 by simp
      have f: "fires r1 r2 a n = rule2_fires a n"
        using True not1 by (simp add: fires_def fun_eq_iff)
      from generic [OF run, of "rule2_fires a n"] rule2_applies_Inr [OF _ ob]
      show ?thesis unfolding f by blast
    next
      case False
      then have "neg' = neg" using assms body not1 by simp
      moreover have "\<not> fires r1 r2 a n r" for r using False not1 by (simp add: fires_def)
      ultimately show ?thesis by simp
    qed
  qed
qed

lemma mine_loop_Inr:
  assumes "mine_loop r1 r2 a (map (\<lambda>n. (n, r_names (relations a) ! n)) ns) neg = Inr neg'"
  shows "length neg' = length neg
     \<and> (\<forall>r<length neg. neg' ! r = neg ! r @
           map (\<lambda>n. r_ids (relations a) ! n)
             (filter (\<lambda>n. r < length (r_names (relations a)) \<and> fires r1 r2 a n r) ns))"
  using assms
proof (induction ns arbitrary: neg)
  case Nil
  then show ?case by simp
next
  case (Cons n ns)
  from Cons.prems obtain neg1 where
    step: "mine_relation r1 r2 a n (r_names (relations a) ! n) neg = Inr neg1"
    and rest: "mine_loop r1 r2 a (map (\<lambda>n. (n, r_names (relations a) ! n)) ns) neg1 = Inr neg'"
    by (auto split: sum.splits)
  note s = mine_relation_Inr [OF step]
  note IH = Cons.IH [OF rest]
  have len: "length neg1 = length neg" using s by simp
  show ?case using s IH unfolding len by auto
qed

lemma mine_negatives_Inr:
  assumes "mine_negatives r1 r2 a = Inr negs"
  shows "length negs = length (r_ids (relations a))"
    and "r < length (r_ids (relations a)) \<Longrightarrow> r < length (r_names (relations a)) \<Longrightarrow>
         negs ! r = map (\<lambda>n. r_ids (relations a) ! n) (contributors r1 r2 a r)"
proof -
  note m = mine_loop_Inr [OF assms [unfolded mine_negatives_def py_enumerate_nth]]
  show "length negs = length (r_ids (relations a))" using m by simp
  show "negs ! r = map (\<lambda>n. r_ids (relations a) ! n) (contributors r1 r2 a r)"
    if "r < length (r_ids (relations a))" "r < length (r_names (relations a))"
    using m that by (simp add: contributors_def)
qed

lemma compute_overlap_self:
  "compute_overlap b b = (if compute_area b = 0 then Inl ZeroDivisionError else Inr 1)"
proof -
  have "intersection_bbox b b = b" by (cases b) (simp add: intersection_bbox_def)
  then show ?thesis by (simp add: compute_overlap_def)
qed

lemma overlap_below_self: "overlap_below b b \<noteq> Inr True"
  by (simp add: overlap_below_def compute_overlap_self float_cut_def)

lemma union_area_nonneg: "0 \<le> union_area b0 b1"
  using compute_area_nonneg [of b1] intersection_area_le_left [of b0 b1]
  unfolding union_area_def by linarith

lemma quotient_float_cut_iff:
  assumes "0 < u" "u < 10 ^ 15"
  shows "(of_int i / of_int u :: rat) \<le> float_cut \<longleftrightarrow> (of_int i / of_int u :: rat) < 9 / 10"
proof -
  have u: "(0 :: rat) < of_int u" using assms(1) by simp
  have "(of_int i / of_int u :: rat) \<le> float_cut
      \<longleftrightarrow> (of_int i :: rat) * 18014398509481984 \<le> 16212958658533785 * of_int u"
    using u by (simp add: float_cut_def field_simps)
  also have "\<dots> \<longleftrightarrow> (of_int (i * 18014398509481984) :: rat) \<le> of_int (16212958658533785 * u)"
    by simp
  also have "\<dots> \<longleftrightarrow> i * 18014398509481984 \<le> 16212958658533785 * u"
    by (simp only: of_int_le_iff)
  also have "\<dots> \<longleftrightarrow> i * 10 < 9 * u"
  proof -
    have ub: "u < 1000000000000000" using assms(2) by simp
    show ?thesis
    proof
      assume "i * 18014398509481984 \<le> 16212958658533785 * u"
      then show "i * 10 < 9 * u" using assms(1) ub by linarith
    next
      assume "i * 10 < 9 * u"
      then have "i * 10 + 1 \<le> 9 * u" by linarith
      then show "i * 18014398509481984 \<le> 16212958658533785 * u" using assms(1) ub by linarith
    qed
  qed
  also have "\<dots> \<longleftrightarrow> (of_int (i * 10) :: rat) < of_int (9 * u)"
    by (simp only: of_int_less_iff)
  also have "\<dots> \<longleftrightarrow> (of_int i / of_int u :: rat) < 9 / 10"
    using u by (simp add: field_simps)
  finally show ?thesis .
qed

lemma float_cut_iff:
  assumes "compute_overlap b0 b1 = Inr v" "union_area b0 b1 < 10 ^ 15"
  shows "v \<le> float_cut \<longleftrightarrow> v < 9 / 10"
proof -
  from assms(1) have nz: "union_area b0 b1 \<noteq> 0"
    and v: "v = of_int (compute_area (intersection_bbox b0 b1)) / of_int (union_area b0 b1)"
    unfolding compute_overlap_unfold by (auto split: if_splits)
  have "0 < union_area b0 b1" using nz union_area_nonneg [of b0 b1] by linarith
  from quotient_float_cut_iff [OF this assms(2)] show ?thesis unfolding v .
qed

lemma rule1_negatives_of_run:
  assumes "mine_negatives r1_preds r2_preds a = Inr negs"
    and "n < length (r_names (relations a))" and "r < length (r_names (relations a))"
    and "r < length (r_ids (relations a))"
    and "r_names (relations a) ! n \<in> set r1_preds"
    and "py_get (o_boxes (objects a)) (r_subj_ids (relations a) ! n) = Inr subj_box"
    and "py_get (o_boxes (objects a)) (r_subj_ids (relations a) ! r) = Inr this_subj_box"
  shows "negs ! r = map (\<lambda>m. r_ids (relations a) ! m) (contributors r1_preds r2_preds a r)
     \<and> (n \<in> set (contributors r1_preds r2_preds a r) \<longleftrightarrow>
          r_obj_ids (relations a) ! r = r_obj_ids (relations a) ! n
          \<and> r_names (relations a) ! r \<noteq> r_names (relations a) ! n
          \<and> (\<exists>v. compute_overlap this_subj_box subj_box = Inr v \<and> v \<le> float_cut))
     \<and> ((\<exists>v. compute_overlap this_subj_box subj_box = Inr v \<and> float_cut < v) \<longrightarrow>
          n \<notin> set (contributors r1_preds r2_preds a r))"
proof -
  have lst: "negs ! r = map (\<lambda>m. r_ids (relations a) ! m) (contributors r1_preds r2_preds a r)"
    using mine_negatives_Inr(2) [OF assms(1) assms(4) assms(3)] .
  have below: "overlap_below this_subj_box subj_box = Inr True
      \<longleftrightarrow> (\<exists>v. compute_overlap this_subj_box subj_box = Inr v \<and> v \<le> float_cut)"
    by (auto simp: overlap_below_def split: sum.splits)
  have diff: "r_subj_ids (relations a) ! r \<noteq> r_subj_ids (relations a) ! n"
    if "overlap_below this_subj_box subj_box = Inr True"
  proof
    assume "r_subj_ids (relations a) ! r = r_subj_ids (relations a) ! n"
    then have "this_subj_box = subj_box" using assms(6,7) by simp
    with that overlap_below_self show False by simp
  qed
  have "n \<in> set (contributors r1_preds r2_preds a r) \<longleftrightarrow> rule1_fires a n r"
    using assms(2,5) by (simp add: contributors_def fires_def)
  also have "\<dots> \<longleftrightarrow> r_subj_ids (relations a) ! r \<noteq> r_subj_ids (relations a) ! n
          \<and> overlap_below this_subj_box subj_box = Inr True
          \<and> r_names (relations a) ! r \<noteq> r_names (relations a) ! n
          \<and> r_obj_ids (relations a) ! r = r_obj_ids (relations a) ! n"
    by (simp add: rule1_fires_def assms(6,7))
  also have "\<dots> \<longleftrightarrow> r_obj_ids (relations a) ! r = r_obj_ids (relations a) ! n
          \<and> r_names (relations a) ! r \<noteq> r_names (relations a) ! n
          \<and> overlap_below this_subj_box subj_box = Inr True"
    using diff by blast
  finally have iff: "n \<in> set (contributors r1_preds r2_preds a r) \<longleftrightarrow>
          r_obj_ids (relations a) ! r = r_obj_ids (relations a) ! n
          \<and> r_names (relations a) ! r \<noteq> r_names (relations a) ! n
          \<and> (\<exists>v. compute_overlap this_subj_box subj_box = Inr v \<and> v \<le> float_cut)"
    unfolding below .
  have "n \<notin> set (contributors r1_preds r2_preds a r)"
    if "\<exists>v. compute_overlap this_subj_box subj_box = Inr v \<and> float_cut < v"
    using that unfolding iff by auto
  then show ?thesis using lst iff by blast
qed

lemma riding_run: "mine_negatives [''riding''] [] riding_anno = Inr [[], [1]]"
  by code_simp

lemma close_run: "mine_negatives [''riding''] [] close_anno = Inr [[], []]"
  by code_simp

text \<open>
  On the image with the two huge boxes the overlap is below \<open>9/10\<close>, but the float
  comparison does not see it: no negative is recorded.
\<close>

lemma huge_overlap:
  "compute_overlap (BBox 0 0 0 8999999999999998) (BBox 0 0 0 9999999999999998)
     = Inr (8999999999999999 / 9999999999999999)"
  by (simp add: compute_overlap_def compute_area_def intersection_bbox_def)

lemma huge_run: "mine_negatives [''riding''] [] huge_anno = Inr [[], []]"
  by code_simp

subsection \<open>The miner returns on well-formed images\<close>

lemma py_enumerate_fst: "p \<in> set (py_enumerate xs) \<Longrightarrow> fst p < length xs"
proof -
  assume "p \<in> set (py_enumerate xs)"
  then have "(fst p, snd p) \<in> set (py_enumerate xs)" by simp
  then show ?thesis unfolding py_enumerate_mem by simp
qed

lemma wf_miner_box:
  assumes "wf_miner_input a" "i \<in> set (r_subj_ids (relations a)) \<union> set (r_obj_ids (relations a))"
  shows "\<exists>b. py_get (o_boxes (objects a)) i = Inr b \<and> 0 < compute_area b"
proof -
  have "case py_get (o_boxes (objects a)) i of Inr b \<Rightarrow> 0 < compute_area b | Inl e \<Rightarrow> False"
    using assms by (auto simp: wf_miner_input_def list_all_iff)
  then show ?thesis by (cases "py_get (o_boxes (objects a)) i") auto
qed

lemma overlap_below_total:
  assumes "0 < compute_area b1"
  shows "\<exists>v. overlap_below b0 b1 = Inr v"
proof -
  have "union_area b0 b1 \<noteq> 0" using assms unfolding union_area_zero_iff by simp
  then show ?thesis by (simp add: overlap_below_def compute_overlap_unfold)
qed

lemma rule1_applies_total:
  assumes "wf_miner_input a" "r < length (r_names (relations a))" "0 < compute_area subj_box"
  shows "\<exists>b. rule1_applies a subj_id subj_box obj_id name r rel = Inr b"
proof -
  have r: "r < length (r_subj_ids (relations a))" "r < length (r_obj_ids (relations a))"
    using assms(1,2) by (simp_all add: wf_miner_input_def)
  then have "r_subj_ids (relations a) ! r \<in> set (r_subj_ids (relations a)) \<union> set (r_obj_ids (relations a))"
    by simp
  from wf_miner_box [OF assms(1) this] obtain tb where
    tb: "py_get (o_boxes (objects a)) (r_subj_ids (relations a) ! r) = Inr tb" by blast
  from overlap_below_total [OF assms(3), of tb] obtain v where
    v: "overlap_below tb subj_box = Inr v" by blast
  show ?thesis using r tb v by (auto simp: rule1_applies_def nat_get_def)
qed

lemma rule2_applies_total:
  assumes "wf_miner_input a" "r < length (r_names (relations a))" "0 < compute_area obj_box"
  shows "\<exists>b. rule2_applies a subj_id obj_id obj_box name r rel = Inr b"
proof -
  have r: "r < length (r_subj_ids (relations a))" "r < length (r_obj_ids (relations a))"
    using assms(1,2) by (simp_all add: wf_miner_input_def)
  then have "r_obj_ids (relations a) ! r \<in> set (r_subj_ids (relations a)) \<union> set (r_obj_ids (relations a))"
    by simp
  from wf_miner_box [OF assms(1) this] obtain tb where
    tb: "py_get (o_boxes (objects a)) (r_obj_ids (relations a) ! r) = Inr tb" by blast
  from overlap_below_total [OF assms(3), of tb] obtain v where
    v: "overlap_below tb obj_box = Inr v" by blast
  show ?thesis using r tb v by (auto simp: rule2_applies_def nat_get_def)
qed

lemma rule_loop_total:
  assumes "\<And>p. p \<in> set ps \<Longrightarrow> fst p < length neg \<and> (\<exists>b. f (fst p) (snd p) = Inr b)"
    and "n < length (r_ids (relations a))"
  shows "\<exists>neg'. rule_loop f a n ps neg = Inr neg' \<and> length neg' = length neg"
  using assms(1)
proof (induction ps arbitrary: neg)
  case Nil
  show ?case by simp
next
  case (Cons p rest)
  obtain r0 rel0 where p: "p = (r0, rel0)" by (cases p) auto
  from Cons.prems [of p] obtain b where r0: "r0 < length neg" and b: "f r0 rel0 = Inr b"
    unfolding p by auto
  show ?case
  proof (cases b)
    case False
    have "\<exists>neg'. rule_loop f a n rest neg = Inr neg' \<and> length neg' = length neg"
      by (rule Cons.IH) (use Cons.prems in simp)
    then show ?thesis using b False unfolding p by simp
  next
    case True
    let ?neg1 = "neg[r0 := neg ! r0 @ [r_ids (relations a) ! n]]"
    have ap: "append_neg neg r0 a n = Inr ?neg1"
      using r0 assms(2) by (simp add: append_neg_def nat_get_def)
    have "\<exists>neg'. rule_loop f a n rest ?neg1 = Inr neg' \<and> length neg' = length ?neg1"
      by (rule Cons.IH) (use Cons.prems in simp)
    then show ?thesis using b True ap unfolding p by simp
  qed
qed

lemma mine_relation_total:
  assumes "wf_miner_input a" "n < length (r_names (relations a))"
    "length neg = length (r_names (relations a))"
  shows "\<exists>neg'. mine_relation r1 r2 a n name neg = Inr neg' \<and> length neg' = length neg"
proof -
  let ?R = "relations a"
  have n: "n < length (r_subj_ids ?R)" "n < length (r_obj_ids ?R)" "n < length (r_ids ?R)"
    using assms(1,2) by (simp_all add: wf_miner_input_def)
  then have "r_subj_ids ?R ! n \<in> set (r_subj_ids ?R) \<union> set (r_obj_ids ?R)"
    "r_obj_ids ?R ! n \<in> set (r_subj_ids ?R) \<union> set (r_obj_ids ?R)" by simp_all
  from wf_miner_box [OF assms(1) this(1)] wf_miner_box [OF assms(1) this(2)]
  obtain sb ob where
    sb: "py_get (o_boxes (objects a)) (r_subj_ids ?R ! n) = Inr sb" "0 < compute_area sb"
    and ob: "py_get (o_boxes (objects a)) (r_obj_ids ?R ! n) = Inr ob" "0 < compute_area ob"
    by blast
  have l1: "\<exists>neg'. rule_loop (rule1_applies a (r_subj_ids ?R ! n) sb (r_obj_ids ?R ! n) name) a n
      (py_enumerate (r_names ?R)) neg = Inr neg' \<and> length neg' = length neg"
  proof (rule rule_loop_total [OF _ n(3)])
    fix p assume "p \<in> set (py_enumerate (r_names ?R))"
    then have "fst p < length (r_names ?R)" by (simp add: py_enumerate_fst)
    then show "fst p < length neg \<and>
      (\<exists>b. rule1_applies a (r_subj_ids ?R ! n) sb (r_obj_ids ?R ! n) name (fst p) (snd p) = Inr b)"
      using rule1_applies_total [OF assms(1) _ sb(2)] assms(3) by simp
  qed
  have l2: "\<exists>neg'. rule_loop (rule2_applies a (r_subj_ids ?R ! n) (r_obj_ids ?R ! n) ob name) a n
      (py_enumerate (r_names ?R)) neg = Inr neg' \<and> length neg' = length neg"
  proof (rule rule_loop_total [OF _ n(3)])
    fix p assume "p \<in> set (py_enumerate (r_names ?R))"
    then have "fst p < length (r_names ?R)" by (simp add: py_enumerate_fst)
    then show "fst p < length neg \<and>
      (\<exists>b. rule2_applies a (r_subj_ids ?R ! n) (r_obj_ids ?R ! n) ob name (fst p) (snd p) = Inr b)"
      using rule2_applies_total [OF assms(1) _ ob(2)] assms(3) by simp
  qed
  show ?thesis using n sb ob l1 l2 by (simp add: mine_relation_def nat_get_def)
qed

lemma mine_loop_total:
  assumes "wf_miner_input a" "\<And>p. p \<in> set ps \<Longrightarrow> fst p < length (r_names (relations a))"
    "length neg = length (r_names (relations a))"
  shows "\<exists>neg'. mine_loop r1 r2 a ps neg = Inr neg'"
  using assms(2,3)
proof (induction ps arbitrary: neg)
  case Nil
  show ?case by simp
next
  case (Cons p rest)
  obtain n name where p: "p = (n, name)" by (cases p) auto
  have "n < length (r_names (relations a))" using Cons.prems(1) [of p] unfolding p by simp
  from mine_relation_total [OF assms(1) this Cons.prems(2), of r1 r2 name]
  obtain neg1 where s: "mine_relation r1 r2 a n name neg = Inr neg1" "length neg1 = length neg"
    by blast
  have "\<exists>neg'. mine_loop r1 r2 a rest neg1 = Inr neg'"
    by (rule Cons.IH) (use Cons.prems s(2) in simp_all)
  then show ?case using s(1) unfolding p by simp
qed

lemma mine_negatives_total:
  assumes "wf_miner_input a"
  shows "\<exists>negs. mine_negatives r1 r2 a = Inr negs"
  unfolding mine_negatives_def
proof (rule mine_loop_total [OF assms])
  fix p assume "p \<in> set (py_enumerate (r_names (relations a)))"
  then show "fst p < length (r_names (relations a))" by (simp add: py_enumerate_fst)
next
  show "length (replicate (length (r_ids (relations a))) []) = length (r_names (relations a))"
    using assms by (simp add: wf_miner_input_def)
qed

text \<open>
  C8. Let relation \<open>n\<close> of an image be \<open>(S, P, O)\<close> with \<open>P\<close> a rule-1 predicate, and
  relation \<open>r\<close> be \<open>(S2, P2, O2)\<close>, the union area of the boxes of \<open>S2\<close> and \<open>S\<close> being
  below \<open>10\<^sup>1\<^sup>5\<close> (so that the float comparison with \<open>0.9\<close> decides whether the
  overlap is below \<open>9/10\<close>). On an image whose relation lists are parallel and whose
  referenced boxes have positive area the miner returns. In every run that returns,
  the negative list of \<open>r\<close> holds the predicate ids of its contributors, in order,
  and \<open>n\<close> is one of them exactly when \<open>O2 = O\<close>, \<open>P2 \<noteq> P\<close> and the overlap of the box
  of \<open>S2\<close> with the box of \<open>S\<close> is below \<open>0.9\<close>. In particular, when that overlap is
  at least \<open>0.9\<close>, relation \<open>n\<close> records no negative for \<open>r\<close>.
\<close>

theorem rule1_negatives:
  assumes "n < length (r_names (relations a))" and "r < length (r_names (relations a))"
    and "r < length (r_ids (relations a))"
    and "r_names (relations a) ! n \<in> set r1_preds"
    and "py_get (o_boxes (objects a)) (r_subj_ids (relations a) ! n) = Inr subj_box"
    and "py_get (o_boxes (objects a)) (r_subj_ids (relations a) ! r) = Inr this_subj_box"
    and "union_area this_subj_box subj_box < 10 ^ 15"
  shows "(wf_miner_input a \<longrightarrow> (\<exists>negs. mine_negatives r1_preds r2_preds a = Inr negs))
     \<and> (\<forall>negs. mine_negatives r1_preds r2_preds a = Inr negs \<longrightarrow>
          negs ! r = map (\<lambda>m. r_ids (relations a) ! m) (contributors r1_preds r2_preds a r)
          \<and> (n \<in> set (contributors r1_preds r2_preds a r) \<longleftrightarrow>
               r_obj_ids (relations a) ! r = r_obj_ids (relations a) ! n
               \<and> r_names (relations a) ! r \<noteq> r_names (relations a) ! n
               \<and> (\<exists>v. compute_overlap this_subj_box subj_box = Inr v \<and> v < 9 / 10))
          \<and> ((\<exists>v. compute_overlap this_subj_box subj_box = Inr v \<and> 9 / 10 \<le> v) \<longrightarrow>
               n \<notin> set (contributors r1_preds r2_preds a r)))"
proof (intro conjI impI allI)
  assume "wf_miner_input a"
  then show "\<exists>negs. mine_negatives r1_preds r2_preds a = Inr negs"
    by (rule mine_negatives_total)
next
  fix negs assume run: "mine_negatives r1_preds r2_preds a = Inr negs"
  note of_run = rule1_negatives_of_run [OF run assms(1-6)]
  have cut: "v \<le> float_cut \<longleftrightarrow> v < 9 / 10"
    if "compute_overlap this_subj_box subj_box = Inr v" for v
    using that assms(7) by (rule float_cut_iff)
  have below: "(\<exists>v. compute_overlap this_subj_box subj_box = Inr v \<and> v \<le> float_cut)
      \<longleftrightarrow> (\<exists>v. compute_overlap this_subj_box subj_box = Inr v \<and> v < 9 / 10)"
    using cut by blast
  have above: "\<exists>v. compute_overlap this_subj_box subj_box = Inr v \<and> float_cut < v"
    if "\<exists>v. compute_overlap this_subj_box subj_box = Inr v \<and> 9 / 10 \<le> v"
  proof -
    from that obtain v where v: "compute_overlap this_subj_box subj_box = Inr v" "9 / 10 \<le> v"
      by blast
    from cut [OF v(1)] v(2) have "float_cut < v" by linarith
    with v(1) show ?thesis by blast
  qed
  show "negs ! r = map (\<lambda>m. r_ids (relations a) ! m) (contributors r1_preds r2_preds a r)"
    using of_run by (rule conjunct1)
  show "n \<in> set (contributors r1_preds r2_preds a r) \<longleftrightarrow>
               r_obj_ids (relations a) ! r = r_obj_ids (relations a) ! n
               \<and> r_names (relations a) ! r \<noteq> r_names (relations a) ! n
               \<and> (\<exists>v. compute_overlap this_subj_box subj_box = Inr v \<and> v < 9 / 10)"
    using of_run unfolding below by (rule conjunct2 [THEN conjunct1])
  show "n \<notin> set (contributors r1_preds r2_preds a r)"
    if "\<exists>v. compute_overlap this_subj_box subj_box = Inr v \<and> 9 / 10 \<le> v"
    using of_run above [OF that] by blast
qed

text \<open>
  The statement of C8 at the two images: with overlap 0 the id of \<open>riding\<close> is in
  the list of the \<open>near\<close> relation; with overlap \<open>9/10\<close> it is not.
\<close>

theorem rule1_negatives_witness:
  "wf_miner_input riding_anno
   \<and> union_area (BBox 0 9 50 59) (BBox 0 9 0 9) < 10 ^ 15
   \<and> union_area (BBox 0 9 0 8) (BBox 0 9 0 9) < 10 ^ 15
   \<and> mine_negatives [''riding''] [] riding_anno = Inr [[], [1]]
   \<and> compute_overlap (BBox 0 9 50 59) (BBox 0 9 0 9) = Inr 0
   \<and> 0 \<in> set (contributors [''riding''] [] riding_anno 1)
   \<and> mine_negatives [''riding''] [] close_anno = Inr [[], []]
   \<and> compute_overlap (BBox 0 9 0 8) (BBox 0 9 0 9) = Inr (9 / 10)
   \<and> 0 \<notin> set (contributors [''riding''] [] close_anno 1)"
proof -
  have ov1: "compute_overlap (BBox 0 9 50 59) (BBox 0 9 0 9) = Inr 0"
    by (simp add: compute_overlap_def compute_area_def intersection_bbox_def)
  have ov2: "compute_overlap (BBox 0 9 0 8) (BBox 0 9 0 9) = Inr (9 / 10)"
    by (simp add: compute_overlap_def compute_area_def intersection_bbox_def)
  have h1: "(0::nat) < length (r_names (relations riding_anno))"
    "(1::nat) < length (r_names (relations riding_anno))"
    "(1::nat) < length (r_ids (relations riding_anno))"
    "r_names (relations riding_anno) ! 0 \<in> set [''riding'']"
    "py_get (o_boxes (objects riding_anno)) (r_subj_ids (relations riding_anno) ! 0)
       = Inr (BBox 0 9 0 9)"
    "py_get (o_boxes (objects riding_anno)) (r_subj_ids (relations riding_anno) ! 1)
       = Inr (BBox 0 9 50 59)"
    "union_area (BBox 0 9 50 59) (BBox 0 9 0 9) < 10 ^ 15"
    by (simp_all add: riding_anno_def py_get_def union_area_def compute_area_def
        intersection_bbox_def)
  have h2: "(0::nat) < length (r_names (relations close_anno))"
    "(1::nat) < length (r_names (relations close_anno))"
    "(1::nat) < length (r_ids (relations close_anno))"
    "r_names (relations close_anno) ! 0 \<in> set [''riding'']"
    "py_get (o_boxes (objects close_anno)) (r_subj_ids (relations close_anno) ! 0)
       = Inr (BBox 0 9 0 9)"
    "py_get (o_boxes (objects close_anno)) (r_subj_ids (relations close_anno) ! 1)
       = Inr (BBox 0 9 0 8)"
    "union_area (BBox 0 9 0 8) (BBox 0 9 0 9) < 10 ^ 15"
    by (simp_all add: close_anno_def py_get_def union_area_def compute_area_def
        intersection_bbox_def)
  have c1: "0 \<in> set (contributors [''riding''] [] riding_anno 1)"
    using rule1_negatives [OF h1, of "[]"] riding_run ov1 by (simp add: riding_anno_def)
  have c2: "0 \<notin> set (contributors [''riding''] [] close_anno 1)"
    using rule1_negatives [OF h2, of "[]"] close_run ov2 by simp
  have wf: "wf_miner_input riding_anno"
    by (simp add: wf_miner_input_def riding_anno_def py_get_def compute_area_def)
  show ?thesis using wf h1(7) h2(7) riding_run close_run ov1 ov2 c1 c2 by simp
qed

end
